theory Spec2Isabelle
  imports Main "HOL-Library.AList"
begin

section \<open>Data model of the tracer agent\<close>

text \<open>
  The agent is a TypeScript class; its interfaces become records, its string unions
  become datatypes, and its \<^verbatim>\<open>Map\<close> objects become association lists that keep
  insertion order. Target ids are JavaScript numbers used as counters starting at 1,
  modelled as natural numbers.
\<close>

record MethodTypeSignature =
  argInfo :: "(nat \<times> bool) list"
  retType :: bool
  sel :: "string option"

text \<open>\<^verbatim>\<open>MemberName = string | [string, string] | [string, string, MethodTypeSignature]\<close>\<close>

datatype MemberName =
  Bare string
  | Named string string
  | Signed string string MethodTypeSignature

datatype TargetType = FlavorC | FlavorObjC | FlavorSwift | FlavorJava

record HandlerRequestScope =
  scope_name :: string
  members :: "MemberName list"

record HandlerRequest =
  msg_type :: string
  flavor :: TargetType
  baseId :: nat
  scopes :: "HandlerRequestScope list"

record HandlerResponse =
  scripts :: "string list"

section \<open>Handler provisioning: \<^verbatim>\<open>getHandlers\<close>\<close>

text \<open>
  The inner \<^verbatim>\<open>for (const member of pendingMembers)\<close> loop: it pushes members onto
  \<^verbatim>\<open>curMembers\<close>, counts them in \<^verbatim>\<open>size\<close>, and breaks with \<^verbatim>\<open>exhausted = true\<close>
  when \<^verbatim>\<open>size === 1000\<close>. The result is \<open>(curMembers, size, exhausted)\<close>.
\<close>

fun takeMembers :: "nat \<Rightarrow> MemberName list \<Rightarrow> MemberName list \<Rightarrow> MemberName list \<times> nat \<times> bool" where
  "takeMembers sz curMembers [] = (curMembers, sz, False)"
| "takeMembers sz curMembers (member # rest) =
     (let curMembers' = curMembers @ [member]; sz' = sz + 1
      in if sz' = 1000 then (curMembers', sz', True)
         else takeMembers sz' curMembers' rest)"

text \<open>
  The outer \<^verbatim>\<open>for (const {name, members: pendingMembers} of pendingScopes)\<close> loop.
  Every visited scope is pushed onto \<^verbatim>\<open>curScopes\<close> with the members taken from it,
  \<^verbatim>\<open>pendingMembers.splice(0, curMembers.length)\<close> removes them from the pending scope,
  and the loop breaks once \<^verbatim>\<open>exhausted\<close> is set. The result is
  \<open>(curScopes, pendingScopes, size)\<close>.
\<close>

fun fillScopes :: "nat \<Rightarrow> HandlerRequestScope list \<Rightarrow> HandlerRequestScope list \<Rightarrow>
    HandlerRequestScope list \<times> HandlerRequestScope list \<times> nat" where
  "fillScopes sz curScopes [] = (curScopes, [], sz)"
| "fillScopes sz curScopes (s # rest) =
     (case takeMembers sz [] (members s) of
        (curMembers, sz', exhausted) \<Rightarrow>
          (let s' = s\<lparr>members := drop (length curMembers) (members s)\<rparr>;
               curScopes' = curScopes @ [\<lparr>scope_name = scope_name s, members = curMembers\<rparr>]
           in if exhausted then (curScopes', s' # rest, sz')
              else (case fillScopes sz' curScopes' rest of
                      (cs, pend, sz) \<Rightarrow> (cs, s' # pend, sz))))"

text \<open>
  One pass of the \<^verbatim>\<open>do ... while\<close> body up to the \<^verbatim>\<open>send\<close>: fill a request from
  \<^verbatim>\<open>size = 0\<close>, then drop the leading pending scopes that have no members left.
\<close>

definition onePass :: "HandlerRequestScope list \<Rightarrow>
    HandlerRequestScope list \<times> HandlerRequestScope list \<times> nat" where
  "onePass pendingScopes =
     (case fillScopes 0 [] pendingScopes of
        (curScopes, pend, sz) \<Rightarrow> (curScopes, dropWhile (\<lambda>s. members s = []) pend, sz))"

definition flatMembers :: "HandlerRequestScope list \<Rightarrow> MemberName list" where
  "flatMembers ss = concat (map members ss)"

text \<open>
  The host side of the channel: \<^verbatim>\<open>send(curRequest)\<close> followed by
  \<^verbatim>\<open>await receiveResponse(`reply:${id}`)\<close>. A host is a function from the request to
  the reply correlated with its id; \<open>None\<close> is a host that never answers, on which the
  \<^verbatim>\<open>await\<close> never resumes.
\<close>

type_synonym Host = "HandlerRequest \<Rightarrow> HandlerResponse option"

text \<open>
  The \<^verbatim>\<open>do ... while (pendingScopes.length !== 0)\<close> loop. The state is the current
  \<^verbatim>\<open>id\<close>, the pending scopes and the accumulated scripts; the requests sent so far
  are recorded as well. The result is the list of requests sent and the response
  returned, \<open>None\<close> when the call stalls on an unanswered request. The loop
  terminates because every pass that leaves a scope pending has consumed 1000 members;
  the proof comes with the lemmas on one pass.
\<close>

function getHandlers_loop :: "Host \<Rightarrow> string \<Rightarrow> TargetType \<Rightarrow> nat \<Rightarrow> HandlerRequestScope list \<Rightarrow>
    string list \<Rightarrow> HandlerRequest list \<Rightarrow> HandlerRequest list \<times> HandlerResponse option" where
  "getHandlers_loop host ty fl ident pendingScopes collected sent =
     (case onePass pendingScopes of
        (curScopes, pendingScopes', sz) \<Rightarrow>
          (let curRequest = \<lparr>msg_type = ty, flavor = fl, baseId = ident, scopes = curScopes\<rparr>;
               sent' = sent @ [curRequest]
           in case host curRequest of
                None \<Rightarrow> (sent', None)
              | Some response \<Rightarrow>
                  (let collected' = collected @ scripts response;
                       ident' = ident + sz
                   in if pendingScopes' \<noteq> []
                      then getHandlers_loop host ty fl ident' pendingScopes' collected' sent'
                      else (sent', Some \<lparr>scripts = collected'\<rparr>))))"
  by pat_completeness auto

text \<open>\<^verbatim>\<open>getHandlers(request)\<close>: the loop started at \<^verbatim>\<open>request.baseId\<close> on a copy of
  \<^verbatim>\<open>request.scopes\<close> with no scripts collected.\<close>

definition getHandlers :: "Host \<Rightarrow> HandlerRequest \<Rightarrow> HandlerRequest list \<times> HandlerResponse option" where
  "getHandlers host request =
     getHandlers_loop host (msg_type request) (flavor request) (baseId request) (scopes request) [] []"

text \<open>
  The collaborator contract of the host: every request is answered, with exactly one
  script per requested member.
\<close>

definition answers :: "Host \<Rightarrow> bool" where
  "answers host = (\<forall>r. case host r of None \<Rightarrow> False
      | Some resp \<Rightarrow> length (scripts resp) = length (flatMembers (scopes r)))"

definition pagesOf :: "nat \<Rightarrow> nat" where
  "pagesOf n = max 1 ((n + 999) div 1000)"

text \<open>The members of a list of scopes in order, each paired with the name of its scope.\<close>

definition flatPairs :: "HandlerRequestScope list \<Rightarrow> (string \<times> MemberName) list" where
  "flatPairs ss = concat (map (\<lambda>s. map (Pair (scope_name s)) (members s)) ss)"

section \<open>Dispatch and depth tracking\<close>

text \<open>\<^verbatim>\<open>type CutPoint = ">" | "<"\<close>\<close>

datatype CutPoint = Enter | Leave

type_synonym ThreadId = nat

text \<open>\<^verbatim>\<open>TraceEvent = [TraceTargetId, Timestamp, ThreadId, Depth, Message]\<close>\<close>

type_synonym TraceEvent = "nat \<times> int \<times> ThreadId \<times> int \<times> string"

definition eventDepth :: "TraceEvent \<Rightarrow> int" where
  "eventDepth event = (case event of (ident, timestamp, threadId, depth, message) \<Rightarrow> depth)"

text \<open>
  \<^verbatim>\<open>updateDepth(threadId, cutPoint)\<close> on the \<^verbatim>\<open>stackDepth\<close> map. It returns the
  local \<^verbatim>\<open>depth\<close> and the updated map: on \<^verbatim>\<open>">"\<close> the map stores \<^verbatim>\<open>depth + 1\<close>
  and the value read is returned; on \<^verbatim>\<open>"<"\<close> the value read is decremented, stored
  when it is not zero and deleted when it is, and the decremented value is returned.
\<close>

definition updateDepth :: "(ThreadId \<rightharpoonup> int) \<Rightarrow> ThreadId \<Rightarrow> CutPoint \<Rightarrow> int \<times> (ThreadId \<rightharpoonup> int)" where
  "updateDepth depthEntries threadId cutPoint =
     (let depth = (case depthEntries threadId of None \<Rightarrow> 0 | Some d \<Rightarrow> d)
      in case cutPoint of
           Enter \<Rightarrow> (depth, depthEntries(threadId \<mapsto> depth + 1))
         | Leave \<Rightarrow>
             (let depth' = depth - 1
              in if depth' \<noteq> 0 then (depth', depthEntries(threadId \<mapsto> depth'))
                 else (depth', depthEntries(threadId := None))))"

text \<open>
  The part of the agent's state that the dispatcher touches: the depth table, the session
  start time, the queue of pending events and whether a flush timer is scheduled.
\<close>

record Dispatcher =
  stackDepth :: "ThreadId \<rightharpoonup> int"
  started :: int
  pendingEvents :: "TraceEvent list"
  flushTimer :: bool

text \<open>\<^verbatim>\<open>emit(event)\<close>: push the event, and schedule a flush when none is scheduled.\<close>

definition emit :: "TraceEvent \<Rightarrow> Dispatcher \<Rightarrow> Dispatcher" where
  "emit event a =
     (let a' = a\<lparr>pendingEvents := pendingEvents a @ [event]\<rparr>
      in if \<not> flushTimer a' then a'\<lparr>flushTimer := True\<rparr> else a')"

text \<open>\<^verbatim>\<open>message.join(" ")\<close>\<close>

fun join :: "string list \<Rightarrow> string" where
  "join [] = []"
| "join [m] = m"
| "join (m # ms) = m @ '' '' @ join ms"

text \<open>
  A handler callback is user script. What the dispatcher sees of one invocation is the
  sequence of calls it makes to \<^verbatim>\<open>log\<close>, each with its list of string arguments; a
  callback is modelled as the function from its parameter to that sequence.
\<close>

type_synonym 'p TraceCallback = "'p \<Rightarrow> string list list"

text \<open>
  \<^verbatim>\<open>invokeNativeHandler(id, callback, context, param, cutPoint)\<close>. \<open>now\<close> is the value
  of \<^verbatim>\<open>Date.now()\<close> at the call and \<open>threadId\<close> is \<^verbatim>\<open>context.threadId\<close>. Every call
  of \<^verbatim>\<open>log\<close> emits one event with the timestamp and depth computed before the callback
  runs.
\<close>

definition invokeNativeHandler :: "int \<Rightarrow> nat \<Rightarrow> 'p TraceCallback \<Rightarrow> ThreadId \<Rightarrow> 'p \<Rightarrow> CutPoint \<Rightarrow>
    Dispatcher \<Rightarrow> Dispatcher" where
  "invokeNativeHandler now ident callback threadId param cutPoint a =
     (let timestamp = now - started a;
          (depth, entries) = updateDepth (stackDepth a) threadId cutPoint;
          a' = a\<lparr>stackDepth := entries\<rparr>
      in fold (\<lambda>message. emit (ident, timestamp, threadId, depth, join message))
           (callback param) a')"

text \<open>
  One traced native call, as the listener of \<^verbatim>\<open>makeNativeListenerCallbacks\<close> sees it:
  \<^verbatim>\<open>onEnter(args)\<close> runs \<^verbatim>\<open>handler[0]\<close> at cut point \<^verbatim>\<open>">"\<close> when the clock reads
  \<open>now1\<close>, then \<^verbatim>\<open>onLeave(retval)\<close> runs \<^verbatim>\<open>handler[1]\<close> at cut point \<^verbatim>\<open>"<"\<close> when
  the clock reads \<open>now2\<close>.
\<close>

definition nativeCall :: "nat \<Rightarrow> 'p TraceCallback \<times> 'p TraceCallback \<Rightarrow> ThreadId \<Rightarrow>
    int \<Rightarrow> 'p \<Rightarrow> int \<Rightarrow> 'p \<Rightarrow> Dispatcher \<Rightarrow> Dispatcher" where
  "nativeCall ident handler threadId now1 args now2 retval a =
     invokeNativeHandler now2 ident (snd handler) threadId retval Leave
       (invokeNativeHandler now1 ident (fst handler) threadId args Enter a)"

text \<open>A sequence of probe callbacks on one thread, as far as the depth table goes.\<close>

fun runCutPoints :: "ThreadId \<Rightarrow> CutPoint list \<Rightarrow> (ThreadId \<rightharpoonup> int) \<Rightarrow> (ThreadId \<rightharpoonup> int)" where
  "runCutPoints threadId [] depthEntries = depthEntries"
| "runCutPoints threadId (c # cs) depthEntries =
     runCutPoints threadId cs (snd (updateDepth depthEntries threadId c))"

text \<open>The number of enters minus the number of exits of a sequence.\<close>

fun balance :: "CutPoint list \<Rightarrow> int" where
  "balance [] = 0"
| "balance (Enter # cs) = balance cs + 1"
| "balance (Leave # cs) = balance cs - 1"

text \<open>
  A sequence is properly nested from \<open>d\<close> open calls when every exit has an enter before
  it that it closes, and no call is left open at the end.
\<close>

fun nested :: "nat \<Rightarrow> CutPoint list \<Rightarrow> bool" where
  "nested d [] = (d = 0)"
| "nested d (Enter # cs) = nested (Suc d) cs"
| "nested d (Leave # cs) = (0 < d \<and> nested (d - 1) cs)"

text \<open>The depth the table holds for a thread, an absent entry counting as 0
  (\<^verbatim>\<open>depthEntries.get(threadId) ?? 0\<close>).\<close>

definition depthOf :: "(ThreadId \<rightharpoonup> int) \<Rightarrow> ThreadId \<Rightarrow> int" where
  "depthOf depthEntries threadId = (case depthEntries threadId of None \<Rightarrow> 0 | Some d \<Rightarrow> d)"

section \<open>Target plan: pattern parsing\<close>

text \<open>
  \<^verbatim>\<open>String.prototype.replace\<close> with a string pattern replaces the first occurrence
  only; here both pattern and replacement are single characters.
\<close>

fun replaceFirst :: "char \<Rightarrow> char \<Rightarrow> string \<Rightarrow> string" where
  "replaceFirst c d [] = []"
| "replaceFirst c d (x # xs) = (if x = c then d # xs else x # replaceFirst c d xs)"

text \<open>
  \<^verbatim>\<open>String.prototype.split\<close> at a single character: \<open>cur\<close> is the fragment being
  read. The empty string splits into one empty fragment.
\<close>

fun splitAcc :: "char \<Rightarrow> string \<Rightarrow> string \<Rightarrow> string list" where
  "splitAcc c cur [] = [cur]"
| "splitAcc c cur (x # xs) =
     (if x = c then cur # splitAcc c [] xs else splitAcc c (cur @ [x]) xs)"

definition splitOn :: "char \<Rightarrow> string \<Rightarrow> string list" where
  "splitOn c s = splitAcc c [] s"

text \<open>
  \<^verbatim>\<open>parseMethodPattern(pattern)\<close>: \<^verbatim>\<open>if (!pattern) return [];\<close> then
  \<^verbatim>\<open>pattern.replace(";", ",").split(",")\<close>.
\<close>

definition parseMethodPattern :: "string \<Rightarrow> string list" where
  "parseMethodPattern pattern =
     (if pattern = [] then [] else splitOn CHR '','' (replaceFirst CHR '';'' CHR '','' pattern))"

text \<open>The fragments joined again with the separator between them.\<close>

fun joinWith :: "char \<Rightarrow> string list \<Rightarrow> string" where
  "joinWith c [] = []"
| "joinWith c [f] = f"
| "joinWith c (f # fs) = f @ c # joinWith c fs"

section \<open>Target plan: native targets\<close>

text \<open>
  \<^verbatim>\<open>NativeTarget = ["c" | "objc" | "swift", ScopeName, MemberName]\<close>, and
  \<^verbatim>\<open>NativeTargets = Map<NativeId, NativeTarget>\<close> keyed by the address string. A
  \<^verbatim>\<open>Map\<close> iterates in insertion order, and deleting the entry being visited does not
  disturb the iteration, so the map is an association list and a loop that deletes entries
  is a recursion that drops them.
\<close>

datatype NativeKind = KindC | KindObjC | KindSwift

type_synonym NativeTarget = "NativeKind \<times> string \<times> MemberName"

type_synonym NativeTargets = "(string \<times> NativeTarget) list"

text \<open>\<^verbatim>\<open>typeof name === "string" ? name : name[1]\<close>\<close>

fun displayName :: "MemberName \<Rightarrow> string" where
  "displayName (Bare n) = n"
| "displayName (Named n d) = d"
| "displayName (Signed n d sig) = d"

subsection \<open>Regular expressions\<close>

text \<open>
  The regular expression engine is the JavaScript built-in; the model takes it as two
  parameters. \<open>compile pt\<close> is \<^verbatim>\<open>new RegExp(pt, "g")\<close>: the compiled pattern, or
  \<open>None\<close> when the constructor throws a \<^verbatim>\<open>SyntaxError\<close>. \<open>exec r s i\<close> searches
  \<open>s\<close> for the first match of \<open>r\<close> that starts at index \<open>i\<close> or later and returns
  the index at which the match ends, or \<open>None\<close> when there is none.

  A \<^verbatim>\<open>RegExp\<close> object created with the \<^verbatim>\<open>g\<close> flag carries \<^verbatim>\<open>lastIndex\<close>, initially
  0. \<^verbatim>\<open>reg.test(s)\<close> starts its search at \<^verbatim>\<open>lastIndex\<close>; when it finds a match it
  stores the end of the match in \<^verbatim>\<open>lastIndex\<close> and returns true; when \<^verbatim>\<open>lastIndex\<close>
  is beyond the end of \<open>s\<close> or nothing matches, it resets \<^verbatim>\<open>lastIndex\<close> to 0 and
  returns false.
\<close>

record 'r RegExp =
  source :: 'r
  lastIndex :: nat

type_synonym 'r Compile = "string \<Rightarrow> 'r option"

type_synonym 'r Exec = "'r \<Rightarrow> string \<Rightarrow> nat \<Rightarrow> nat option"

definition test :: "'r Exec \<Rightarrow> 'r RegExp \<Rightarrow> string \<Rightarrow> bool \<times> 'r RegExp" where
  "test exec reg s =
     (if lastIndex reg > length s then (False, reg\<lparr>lastIndex := 0\<rparr>)
      else case exec (source reg) s (lastIndex reg) of
             None \<Rightarrow> (False, reg\<lparr>lastIndex := 0\<rparr>)
           | Some e \<Rightarrow> (True, reg\<lparr>lastIndex := e\<rparr>))"

subsection \<open>\<^verbatim>\<open>filterObjCMethod\<close>\<close>

text \<open>
  The first loop of \<^verbatim>\<open>filterObjCMethod\<close>: one \<^verbatim>\<open>new RegExp(pt, "g")\<close> per fragment,
  pushed onto \<^verbatim>\<open>regList\<close>; the empty \<^verbatim>\<open>catch\<close> skips a fragment whose constructor
  throws.
\<close>

fun buildRegList :: "'r Compile \<Rightarrow> string list \<Rightarrow> 'r RegExp list" where
  "buildRegList compile [] = []"
| "buildRegList compile (pt # pts) =
     (case compile pt of
        None \<Rightarrow> buildRegList compile pts
      | Some r \<Rightarrow> \<lparr>source = r, lastIndex = 0\<rparr> # buildRegList compile pts)"

text \<open>
  The inner loop \<^verbatim>\<open>for (const reg of regList) if (reg.test(displayName)) { matched = true;
  break; }\<close>: the result is \<^verbatim>\<open>matched\<close> and the list of \<^verbatim>\<open>RegExp\<close> objects with the
  \<^verbatim>\<open>lastIndex\<close> each test left behind.
\<close>

fun testAny :: "'r Exec \<Rightarrow> 'r RegExp list \<Rightarrow> string \<Rightarrow> bool \<times> 'r RegExp list" where
  "testAny exec [] s = (False, [])"
| "testAny exec (reg # regs) s =
     (case test exec reg s of
        (True, reg') \<Rightarrow> (True, reg' # regs)
      | (False, reg') \<Rightarrow> (case testAny exec regs s of (matched, regs') \<Rightarrow> (matched, reg' # regs')))"

text \<open>
  The second loop, over \<^verbatim>\<open>native.entries()\<close>: an entry whose display name no
  expression matched is deleted. The \<^verbatim>\<open>RegExp\<close> objects live across the entries.
\<close>

fun filterEntries :: "'r Exec \<Rightarrow> 'r RegExp list \<Rightarrow> NativeTargets \<Rightarrow> NativeTargets" where
  "filterEntries exec regList [] = []"
| "filterEntries exec regList ((addr, ty, scope, name) # rest) =
     (case testAny exec regList (displayName name) of
        (matched, regList') \<Rightarrow>
          if \<not> matched then filterEntries exec regList' rest
          else (addr, ty, scope, name) # filterEntries exec regList' rest)"

text \<open>
  \<^verbatim>\<open>filterObjCMethod(pattern, plan)\<close> on the native map of the plan (the only part of
  the plan it touches). It makes no call to \<^verbatim>\<open>send\<close> and nothing escapes its
  \<^verbatim>\<open>try\<close>, so the result is the new native map alone.
\<close>

definition filterObjCMethod :: "'r Compile \<Rightarrow> 'r Exec \<Rightarrow> string \<Rightarrow> NativeTargets \<Rightarrow> NativeTargets" where
  "filterObjCMethod compile exec pattern native =
     (let regList = buildRegList compile (parseMethodPattern pattern)
      in if regList = [] then native else filterEntries exec regList native)"

subsection \<open>The engine on plain patterns\<close>

text \<open>
  To evaluate the filter at concrete inputs, the engine is given on the patterns the
  inputs below use. A pattern made of letters and digits only is a valid regular
  expression that matches exactly its own occurrences, so the search is a substring search;
  the patterns \<^verbatim>\<open>(\<close> and \<^verbatim>\<open>[\<close> are rejected by the \<^verbatim>\<open>RegExp\<close> constructor
  (unterminated group, unterminated character class). \<open>plainCompile\<close> gives \<open>None\<close> on
  every other pattern as well, which no input below uses.
\<close>

definition isAlnum :: "char \<Rightarrow> bool" where
  "isAlnum c = (let n = (of_char c :: nat)
     in (48 \<le> n \<and> n \<le> 57) \<or> (65 \<le> n \<and> n \<le> 90) \<or> (97 \<le> n \<and> n \<le> 122))"

definition plainCompile :: "string Compile" where
  "plainCompile pt = (if pt \<noteq> [] \<and> list_all isAlnum pt then Some pt else None)"

text \<open>\<open>searchAt p t i\<close>: \<open>t\<close> is the rest of the subject from index \<open>i\<close> on.\<close>

fun searchAt :: "string \<Rightarrow> string \<Rightarrow> nat \<Rightarrow> nat option" where
  "searchAt p [] i = (if p = [] then Some i else None)"
| "searchAt p (x # xs) i =
     (if take (length p) (x # xs) = p then Some (i + length p) else searchAt p xs (i + 1))"

definition plainExec :: "string Exec" where
  "plainExec p s i = (if i > length s then None else searchAt p (drop i s) i)"

subsection \<open>\<^verbatim>\<open>excludeObjCProperty\<close>\<close>

text \<open>
  The Objective-C runtime is a collaborator. What \<^verbatim>\<open>excludeObjCProperty\<close> asks of it,
  for a class name: \<^verbatim>\<open>ObjC.classes[className]\<close> (\<open>None\<close> when there is no such class),
  whether the class has \<^verbatim>\<open>alloc\<close>, and the keys of \<^verbatim>\<open>cls.alloc().$ivars\<close> (\<open>None\<close>
  when instantiating or reading the instance variables throws).
\<close>

record ObjCClass =
  hasAlloc :: bool
  ivarKeys :: "string list option"

type_synonym ObjCClasses = "string \<Rightarrow> ObjCClass option"

text \<open>\<^verbatim>\<open>toUpperCase\<close> on one character; the model covers ASCII, where it maps
  \<^verbatim>\<open>a\<close>..\<^verbatim>\<open>z\<close> to \<^verbatim>\<open>A\<close>..\<^verbatim>\<open>Z\<close> and leaves everything else.\<close>

definition toUpperCase :: "char \<Rightarrow> char" where
  "toUpperCase c = (let n = (of_char c :: nat)
     in if 97 \<le> n \<and> n \<le> 122 then char_of (n - 32) else c)"

text \<open>
  \<^verbatim>\<open>str.replace(/^./, (str) => str.toUpperCase())\<close>: the dot matches the first
  character unless it is a line terminator.
\<close>

fun capitalizeFirstLetter :: "string \<Rightarrow> string" where
  "capitalizeFirstLetter [] = []"
| "capitalizeFirstLetter (c # cs) =
     (if c = CHR 0x0A \<or> c = CHR 0x0D then c # cs else toUpperCase c # cs)"

text \<open>The body of \<^verbatim>\<open>for (const key of keys)\<close>: the two names pushed for one key.\<close>

definition propertyNamesOfKey :: "string \<Rightarrow> string \<Rightarrow> string list" where
  "propertyNamesOfKey className key =
     (let name = drop 1 key;
          capitalName = capitalizeFirstLetter name
      in [''-['' @ className @ '' '' @ name @ '']'',
          ''-['' @ className @ '' set'' @ capitalName @ '':]''])"

text \<open>The body of \<^verbatim>\<open>for (const className of classNames)\<close>: the names one class adds to
  \<^verbatim>\<open>propertyMethodNames\<close>.\<close>

definition propertyNamesOfClass :: "ObjCClasses \<Rightarrow> string \<Rightarrow> string list" where
  "propertyNamesOfClass classes className =
     (case classes className of
        None \<Rightarrow> []
      | Some cls \<Rightarrow>
          if \<not> hasAlloc cls then []
          else (case ivarKeys cls of
                  None \<Rightarrow> []
                | Some keys \<Rightarrow> concat (map (propertyNamesOfKey className) keys)))"

text \<open>\<^verbatim>\<open>new Set(["cxx_destruct", "dealloc", "alloc"])\<close>, and
  \<^verbatim>\<open>new Set(propertyMethodNames)\<close> below: the sets of the elements of the lists.\<close>

definition otherIgnoreSet :: "string list" where
  "otherIgnoreSet = [''cxx_destruct'', ''dealloc'', ''alloc'']"

text \<open>\<^verbatim>\<open>excludeObjCProperty(pattern, plan)\<close> on the native map of the plan.\<close>

definition excludeObjCProperty :: "ObjCClasses \<Rightarrow> string \<Rightarrow> NativeTargets \<Rightarrow> NativeTargets" where
  "excludeObjCProperty classes pattern native =
     (if pattern = [] then native
      else
        (let classNames = splitOn CHR '','' (replaceFirst CHR '';'' CHR '','' pattern);
             propertyMethodNames = concat (map (propertyNamesOfClass classes) classNames)
         in filter (\<lambda>(addr, ty, scope, name).
                \<not> (displayName name \<in> set propertyMethodNames
                   \<or> displayName name \<in> set otherIgnoreSet))
              native))"

section \<open>Target plan: managed targets\<close>

text \<open>
  The result of \<^verbatim>\<open>Java.enumerateMethods(pattern)\<close>: groups of classes by class loader,
  each class with its method names. A loader is a \<^verbatim>\<open>Java.Wrapper\<close> or \<^verbatim>\<open>null\<close>; a
  wrapper is modelled by the identity of the loader it wraps, so that
  \<^verbatim>\<open>a.equals(b)\<close> is equality.
\<close>

type_synonym Loader = "nat option"

record EnumerateMethodsMatchClass =
  class_name :: string
  class_methods :: "string list"

record EnumerateMethodsMatchGroup =
  match_loader :: Loader
  match_classes :: "EnumerateMethodsMatchClass list"

text \<open>
  \<^verbatim>\<open>JavaTargetClass\<close> holds \<^verbatim>\<open>methods: Map<JavaMethodName, JavaMethodNameOrSignature>\<close>
  and \<^verbatim>\<open>JavaTargetGroup\<close> holds \<^verbatim>\<open>classes: Map<string, JavaTargetClass>\<close>. The maps are
  association lists in insertion order: \<^verbatim>\<open>set\<close> is \<open>AList.update\<close> (in place for a
  key already there, at the end for a new one), \<^verbatim>\<open>get\<close> is \<open>map_of\<close>.
\<close>

record JavaTargetClass =
  methods :: "(string \<times> string) list"

record JavaTargetGroup =
  loader :: Loader
  classes :: "(string \<times> JavaTargetClass) list"

text \<open>\<^verbatim>\<open>fullName.indexOf("(")\<close> and \<^verbatim>\<open>substr(0, signatureStart)\<close>\<close>

definition javaBareMethodNameFromMethodName :: "string \<Rightarrow> string" where
  "javaBareMethodNameFromMethodName fullName = takeWhile (\<lambda>c. c \<noteq> CHR ''('') fullName"

text \<open>\<^verbatim>\<open>new Map(entries)\<close> sets the entries one after the other.\<close>

definition newMap :: "('k \<times> 'v) list \<Rightarrow> ('k \<times> 'v) list" where
  "newMap entries = fold (\<lambda>(k, v). AList.update k v) entries []"

definition javaTargetClassFromMatchClass :: "EnumerateMethodsMatchClass \<Rightarrow> JavaTargetClass" where
  "javaTargetClassFromMatchClass klass =
     \<lparr>methods = newMap (map (\<lambda>fullName. (javaBareMethodNameFromMethodName fullName, fullName))
                         (class_methods klass))\<rparr>"

definition javaTargetGroupFromMatchGroup :: "EnumerateMethodsMatchGroup \<Rightarrow> JavaTargetGroup" where
  "javaTargetGroupFromMatchGroup grp =
     \<lparr>loader = match_loader grp,
      classes = newMap (map (\<lambda>klass. (class_name klass, javaTargetClassFromMatchClass klass))
                         (match_classes grp))\<rparr>"

text \<open>The predicate given to \<^verbatim>\<open>find\<close>.\<close>

definition sameLoader :: "Loader \<Rightarrow> Loader \<Rightarrow> bool" where
  "sameLoader candidateLoader ldr =
     (if candidateLoader \<noteq> None \<and> ldr \<noteq> None then the candidateLoader = the ldr
      else candidateLoader = ldr)"

text \<open>The body of \<^verbatim>\<open>for (const methodName of klass.methods)\<close> on \<^verbatim>\<open>existingMethods\<close>.\<close>

definition mergeMethod :: "string \<Rightarrow> (string \<times> string) list \<Rightarrow> (string \<times> string) list" where
  "mergeMethod methodName existingMethods =
     (let bareMethodName = javaBareMethodNameFromMethodName methodName
      in case map_of existingMethods bareMethodName of
           None \<Rightarrow> AList.update bareMethodName methodName existingMethods
         | Some existingName \<Rightarrow>
             AList.update bareMethodName
               (if length methodName > length existingName then methodName else existingName)
               existingMethods)"

text \<open>The body of \<^verbatim>\<open>for (const klass of group.classes)\<close> on \<^verbatim>\<open>existingClasses\<close>; the
  methods map of an existing class is updated in place.\<close>

definition mergeClass :: "EnumerateMethodsMatchClass \<Rightarrow> (string \<times> JavaTargetClass) list \<Rightarrow>
    (string \<times> JavaTargetClass) list" where
  "mergeClass klass existingClasses =
     (case map_of existingClasses (class_name klass) of
        None \<Rightarrow> AList.update (class_name klass) (javaTargetClassFromMatchClass klass) existingClasses
      | Some existingClass \<Rightarrow>
          AList.update (class_name klass)
            (existingClass\<lparr>methods := fold mergeMethod (class_methods klass) (methods existingClass)\<rparr>)
            existingClasses)"

text \<open>
  The body of \<^verbatim>\<open>for (const group of groups)\<close>: \<^verbatim>\<open>find\<close> returns the first existing
  group with the same loader, whose classes are then updated in place; when there is none
  the group is pushed.
\<close>

fun mergeGroup :: "EnumerateMethodsMatchGroup \<Rightarrow> JavaTargetGroup list \<Rightarrow> JavaTargetGroup list" where
  "mergeGroup grp [] = [javaTargetGroupFromMatchGroup grp]"
| "mergeGroup grp (candidate # rest) =
     (if sameLoader (loader candidate) (match_loader grp)
      then candidate\<lparr>classes := fold mergeClass (match_classes grp) (classes candidate)\<rparr> # rest
      else candidate # mergeGroup grp rest)"

text \<open>\<^verbatim>\<open>includeJavaMethod(pattern, plan)\<close> on \<^verbatim>\<open>plan.java\<close>, given the groups that
  \<^verbatim>\<open>Java.enumerateMethods(pattern)\<close> returned.\<close>

definition includeJavaMethod :: "EnumerateMethodsMatchGroup list \<Rightarrow> JavaTargetGroup list \<Rightarrow> JavaTargetGroup list" where
  "includeJavaMethod groups existingGroups = fold mergeGroup groups existingGroups"

text \<open>The signature the plan holds for a bare method name of a class of a loader.\<close>

definition plannedSignature :: "JavaTargetGroup list \<Rightarrow> Loader \<Rightarrow> string \<Rightarrow> string \<Rightarrow> string option" where
  "plannedSignature groups ldr className bareName =
     (case find (\<lambda>candidate. sameLoader (loader candidate) ldr) groups of
        None \<Rightarrow> None
      | Some grp \<Rightarrow>
          (case map_of (classes grp) className of
             None \<Rightarrow> None
           | Some klass \<Rightarrow> map_of (methods klass) bareName))"

text \<open>An enumeration result with one method of one class.\<close>

definition oneMethod :: "Loader \<Rightarrow> string \<Rightarrow> string \<Rightarrow> EnumerateMethodsMatchGroup list" where
  "oneMethod ldr className methodName =
     [\<lparr>match_loader = ldr,
       match_classes = [\<lparr>class_name = className, class_methods = [methodName]\<rparr>]\<rparr>]"

section \<open>Attachment and session start\<close>

text \<open>The messages the agent passes to \<^verbatim>\<open>send\<close> during startup.\<close>

datatype Message =
  HandlersGet HandlerRequest
  | AgentWarning string
  | AgentInitialized
  | AgentStarted nat

text \<open>
  A handler pair is the result of evaluating a script: either the pair the script defines
  or the pair of no-ops.
\<close>

datatype TraceHandler = FromScript string | NoopPair

text \<open>
  The part of the agent's state that startup touches: the \<^verbatim>\<open>handlers\<close> map, the
  \<^verbatim>\<open>nextId\<close> counter, the probes the interceptor holds (address and target id, one per
  successful \<^verbatim>\<open>Interceptor.attach\<close>) and the messages sent so far.
\<close>

record Agent =
  handlers :: "(nat \<times> TraceHandler) list"
  nextId :: nat
  attached :: "(string \<times> nat) list"
  outbox :: "Message list"

text \<open>
  Two collaborators are parameters. \<open>evalError script\<close> is the message of the exception
  that evaluating \<^verbatim>\<open>"(" + script + ")"\<close> and reading its \<^verbatim>\<open>onEnter\<close> and
  \<^verbatim>\<open>onLeave\<close> throws, \<open>None\<close> when it throws nothing. \<open>attachError address\<close> is
  the message of the exception \<^verbatim>\<open>Interceptor.attach\<close> throws at that address, \<open>None\<close>
  when the probe is attached.
\<close>

type_synonym EvalError = "string \<Rightarrow> string option"

type_synonym AttachError = "string \<Rightarrow> string option"

text \<open>\<^verbatim>\<open>parseHandler(name, script)\<close>: the handler, and the warning sent if any.\<close>

definition parseHandler :: "EvalError \<Rightarrow> string \<Rightarrow> string \<Rightarrow> TraceHandler \<times> Message list" where
  "parseHandler evalError name script =
     (case evalError script of
        None \<Rightarrow> (FromScript script, [])
      | Some message \<Rightarrow>
          (NoopPair, [AgentWarning (''Invalid handler for \"'' @ name @ ''\": '' @ message)]))"

text \<open>\<^verbatim>\<open>scripts[offset]\<close> inside \<^verbatim>\<open>"(" + script + ")"\<close>: an index out of range reads
  \<^verbatim>\<open>undefined\<close>, which concatenates as the text \<^verbatim>\<open>undefined\<close>.\<close>

definition scriptAt :: "string list \<Rightarrow> nat \<Rightarrow> string" where
  "scriptAt scs offset = (if offset < length scs then scs ! offset else ''undefined'')"

text \<open>\<^verbatim>\<open>`${name}`\<close> for a member name: a string as it is, an array as its elements joined
  by commas, the signature object as \<^verbatim>\<open>[object Object]\<close>.\<close>

fun memberToString :: "MemberName \<Rightarrow> string" where
  "memberToString (Bare n) = n"
| "memberToString (Named n d) = n @ '','' @ d"
| "memberToString (Signed n d sig) = n @ '','' @ d @ '',[object Object]''"

type_synonym NativeItem = "MemberName \<times> string"

type_synonym NativeTargetScopes = "(string \<times> NativeItem list) list"

text \<open>
  The body of the inner loop of \<^verbatim>\<open>traceNativeEntries\<close> for one item at \<^verbatim>\<open>offset\<close>:
  the handler is stored under \<^verbatim>\<open>baseId + offset\<close> before the probe is attached, and a
  failed attachment only sends a warning.
\<close>

definition attachItem :: "EvalError \<Rightarrow> AttachError \<Rightarrow> nat \<Rightarrow> string list \<Rightarrow> nat \<Rightarrow> NativeItem \<Rightarrow> Agent \<Rightarrow> Agent" where
  "attachItem evalError attachError base scs offset item a =
     (case item of (name, address) \<Rightarrow>
        (let ident = base + offset;
             (handler, warnings) = parseHandler evalError (displayName name) (scriptAt scs offset);
             a1 = a\<lparr>outbox := outbox a @ warnings,
                    handlers := AList.update ident handler (handlers a)\<rparr>
         in case attachError address of
              None \<Rightarrow> a1\<lparr>attached := attached a1 @ [(address, ident)]\<rparr>
            | Some message \<Rightarrow>
                a1\<lparr>outbox := outbox a1 @
                  [AgentWarning (''Skipping \"'' @ memberToString name @ ''\": '' @ message)]\<rparr>))"

text \<open>The two nested loops over \<^verbatim>\<open>groups.values()\<close> and the items of each group, with
  the running \<^verbatim>\<open>offset\<close>.\<close>

fun attachItems :: "EvalError \<Rightarrow> AttachError \<Rightarrow> nat \<Rightarrow> string list \<Rightarrow> nat \<Rightarrow> NativeItem list \<Rightarrow> Agent \<Rightarrow> Agent" where
  "attachItems evalError attachError base scs offset [] a = a"
| "attachItems evalError attachError base scs offset (item # items) a =
     attachItems evalError attachError base scs (offset + 1) items
       (attachItem evalError attachError base scs offset item a)"

text \<open>
  \<^verbatim>\<open>traceNativeEntries(flavor, groups)\<close>. The result is \<open>None\<close> when the
  \<^verbatim>\<open>await getHandlers(request)\<close> never resumes. The offsets of the second loop run
  through the items of all groups in order, that is through their concatenation.
\<close>

definition traceNativeEntries :: "Host \<Rightarrow> EvalError \<Rightarrow> AttachError \<Rightarrow> TargetType \<Rightarrow> NativeTargetScopes \<Rightarrow>
    Agent \<Rightarrow> Agent option" where
  "traceNativeEntries host evalError attachError flv groups a =
     (if groups = [] then Some a
      else
        (let base = nextId a;
             request = \<lparr>msg_type = ''handlers:get'', flavor = flv, baseId = base,
                        scopes = map (\<lambda>(name, items). \<lparr>scope_name = name, members = map fst items\<rparr>) groups\<rparr>;
             a1 = a\<lparr>nextId := nextId a + length (concat (map snd groups))\<rparr>
         in case getHandlers host request of
              (sent, result) \<Rightarrow>
                (let a2 = a1\<lparr>outbox := outbox a1 @ map HandlersGet sent\<rparr>
                 in case result of
                      None \<Rightarrow> None
                    | Some response \<Rightarrow>
                        Some (attachItems evalError attachError base (scripts response) 0
                                (concat (map snd groups)) a2))))"

text \<open>The grouping loop of \<^verbatim>\<open>traceNativeTargets\<close>: \<^verbatim>\<open>entries.get(scope)\<close>, a new group
  set under the scope when there is none, and \<^verbatim>\<open>group.push([name, ptr(id)])\<close>.\<close>

definition pushItem :: "string \<Rightarrow> NativeItem \<Rightarrow> NativeTargetScopes \<Rightarrow> NativeTargetScopes" where
  "pushItem scope item entries =
     (case map_of entries scope of
        None \<Rightarrow> AList.update scope [item] entries
      | Some grp \<Rightarrow> AList.update scope (grp @ [item]) entries)"

fun groupTargets :: "NativeTargets \<Rightarrow> NativeTargetScopes \<times> NativeTargetScopes \<times> NativeTargetScopes \<Rightarrow>
    NativeTargetScopes \<times> NativeTargetScopes \<times> NativeTargetScopes" where
  "groupTargets [] gs = gs"
| "groupTargets ((ident, kind, scope, name) # targets) (cGroups, objcGroups, swiftGroups) =
     groupTargets targets
       (case kind of
          KindC \<Rightarrow> (pushItem scope (name, ident) cGroups, objcGroups, swiftGroups)
        | KindObjC \<Rightarrow> (cGroups, pushItem scope (name, ident) objcGroups, swiftGroups)
        | KindSwift \<Rightarrow> (cGroups, objcGroups, pushItem scope (name, ident) swiftGroups))"

text \<open>
  \<^verbatim>\<open>traceNativeTargets(targets)\<close>. \<^verbatim>\<open>Promise.all\<close> starts the three flavors in the
  order c, objc, swift; each takes its id range from \<^verbatim>\<open>nextId\<close> before its first
  \<^verbatim>\<open>await\<close>, and after it writes only handlers of its own range. The model runs them one
  after the other, which gives the same ids, handlers and probes; only the order of the
  messages of different flavors in the outbox may differ from an interleaved run.
\<close>

definition traceNativeTargets :: "Host \<Rightarrow> EvalError \<Rightarrow> AttachError \<Rightarrow> NativeTargets \<Rightarrow> Agent \<Rightarrow> Agent option" where
  "traceNativeTargets host evalError attachError targets a =
     (case groupTargets targets ([], [], []) of
        (cGroups, objcGroups, swiftGroups) \<Rightarrow>
          (case traceNativeEntries host evalError attachError FlavorC cGroups a of
             None \<Rightarrow> None
           | Some a1 \<Rightarrow>
               (case traceNativeEntries host evalError attachError FlavorObjC objcGroups a1 of
                  None \<Rightarrow> None
                | Some a2 \<Rightarrow> traceNativeEntries host evalError attachError FlavorSwift swiftGroups a2)))"

text \<open>
  The end of \<^verbatim>\<open>start(spec)\<close> for a specification with no \<^verbatim>\<open>java-method\<close> rule, from
  the plan the rules built: \<^verbatim>\<open>javaStartRequest\<close> is \<^verbatim>\<open>Promise.resolve()\<close>, so after
  \<^verbatim>\<open>await this.traceNativeTargets(plan.native)\<close> the agent sends \<^verbatim>\<open>agent:initialized\<close>
  and then \<^verbatim>\<open>agent:started\<close> with \<^verbatim>\<open>count: this.handlers.size\<close>.
\<close>

definition start :: "Host \<Rightarrow> EvalError \<Rightarrow> AttachError \<Rightarrow> NativeTargets \<Rightarrow> Agent \<Rightarrow> Agent option" where
  "start host evalError attachError native a =
     (case traceNativeTargets host evalError attachError native a of
        None \<Rightarrow> None
      | Some a1 \<Rightarrow>
          Some (a1\<lparr>outbox := outbox a1 @ [AgentInitialized, AgentStarted (length (handlers a1))]\<rparr>))"

text \<open>The agent as constructed: no handler, \<^verbatim>\<open>nextId = 1\<close>.\<close>

definition newAgent :: Agent where
  "newAgent = \<lparr>handlers = [], nextId = 1, attached = [], outbox = []\<rparr>"

text \<open>The items of a group map that satisfy \<open>P\<close>, counted over all groups.\<close>

definition countItems :: "(NativeItem \<Rightarrow> bool) \<Rightarrow> NativeTargetScopes \<Rightarrow> nat" where
  "countItems P groups = length (filter P (concat (map snd groups)))"

text \<open>Every id in the handler table is below \<open>n\<close>.\<close>

definition idsBelow :: "nat \<Rightarrow> Agent \<Rightarrow> bool" where
  "idsBelow n a = list_all (\<lambda>(ident, handler). ident < n) (handlers a)"

definition attachable :: "AttachError \<Rightarrow> NativeItem \<Rightarrow> bool" where
  "attachable attachError item = (attachError (snd item) = None)"

section \<open>Properties: handler provisioning: \<^verbatim>\<open>getHandlers\<close>\<close>

lemma takeMembers_eq:
  "sz < 1000 \<Longrightarrow> takeMembers sz cur ms =
     (cur @ take (1000 - sz) ms, sz + min (length ms) (1000 - sz), 1000 - sz \<le> length ms)"
proof (induction ms arbitrary: sz cur)
  case Nil
  then show ?case by simp
next
  case (Cons m ms)
  show ?case
  proof (cases "sz + 1 = 1000")
    case True
    then have "1000 - sz = 1" by simp
    with True show ?thesis by simp
  next
    case False
    with Cons.prems have lt: "sz + 1 < 1000" by simp
    have step: "1000 - sz = Suc (1000 - (sz + 1))" using lt by simp
    show ?thesis using False Cons.IH [OF lt] by (simp add: step)
  qed
qed

lemma flatMembers_simps [simp]:
  "flatMembers [] = []"
  "flatMembers (s # ss) = members s @ flatMembers ss"
  "flatMembers (ss @ ts) = flatMembers ss @ flatMembers ts"
  by (simp_all add: flatMembers_def)

lemma fillScopes_eq:
  "sz < 1000 \<Longrightarrow> fillScopes sz cur ps = (cs, pend, sz') \<Longrightarrow>
     flatMembers cs = flatMembers cur @ take (1000 - sz) (flatMembers ps)
     \<and> flatMembers pend = drop (1000 - sz) (flatMembers ps)
     \<and> sz' = sz + min (length (flatMembers ps)) (1000 - sz)"
proof (induction ps arbitrary: sz cur cs pend sz')
  case Nil
  then show ?case by auto
next
  case (Cons s rest)
  let ?ms = "members s"
  have tm: "takeMembers sz [] ?ms =
      (take (1000 - sz) ?ms, sz + min (length ?ms) (1000 - sz), 1000 - sz \<le> length ?ms)"
    using takeMembers_eq [OF Cons.prems(1), of "[]" ?ms] by simp
  show ?case
  proof (cases "1000 - sz \<le> length ?ms")
    case True
    define k where "k = 1000 - sz"
    from True have k: "k \<le> length ?ms" by (simp add: k_def)
    from Cons.prems(2) tm True have res:
      "cs = cur @ [\<lparr>scope_name = scope_name s, members = take k ?ms\<rparr>]"
      "pend = s\<lparr>members := drop (length (take k ?ms)) ?ms\<rparr> # rest"
      "sz' = sz + min (length ?ms) k"
      by (simp_all add: Let_def k_def)
    from k have "length (take k ?ms) = k" by simp
    with res k show ?thesis
      unfolding k_def [symmetric] by simp
  next
    case False
    then have short: "length ?ms < 1000 - sz" by simp
    then have lt: "sz + length ?ms < 1000" by simp
    obtain cs0 pend0 sz0 where rec:
      "fillScopes (sz + length ?ms)
         (cur @ [\<lparr>scope_name = scope_name s, members = ?ms\<rparr>]) rest = (cs0, pend0, sz0)"
      by (metis prod_cases3)
    from Cons.IH [OF lt rec] have ih:
      "flatMembers cs0 = flatMembers cur @ ?ms @ take (1000 - (sz + length ?ms)) (flatMembers rest)"
      "flatMembers pend0 = drop (1000 - (sz + length ?ms)) (flatMembers rest)"
      "sz0 = sz + length ?ms + min (length (flatMembers rest)) (1000 - (sz + length ?ms))"
      by simp_all
    from Cons.prems(2) tm short rec have res:
      "cs = cs0" "pend = s\<lparr>members := []\<rparr> # pend0" "sz' = sz0"
      by (auto simp: Let_def min_def)
    show ?thesis using ih res short by (auto simp: min_def)
  qed
qed

lemma dropWhile_empty_flat:
  "flatMembers (dropWhile (\<lambda>s. members s = []) ps) = flatMembers ps"
  by (induction ps) auto

lemma dropWhile_empty_Nil:
  "dropWhile (\<lambda>s. members s = []) ps = [] \<longleftrightarrow> flatMembers ps = []"
  by (induction ps) auto

lemma onePass_eq:
  "onePass ps = (cs, pend, sz) \<Longrightarrow>
     flatMembers cs = take 1000 (flatMembers ps)
     \<and> flatMembers pend = drop 1000 (flatMembers ps)
     \<and> sz = min (length (flatMembers ps)) 1000
     \<and> (pend = [] \<longleftrightarrow> length (flatMembers ps) \<le> 1000)"
proof -
  assume a: "onePass ps = (cs, pend, sz)"
  obtain cs0 pend0 sz0 where f: "fillScopes 0 [] ps = (cs0, pend0, sz0)"
    by (metis prod_cases3)
  from a f have r: "cs = cs0" "pend = dropWhile (\<lambda>s. members s = []) pend0" "sz = sz0"
    by (simp_all add: onePass_def)
  from fillScopes_eq [OF _ f] have
    "flatMembers cs0 = take 1000 (flatMembers ps)"
    "flatMembers pend0 = drop 1000 (flatMembers ps)"
    "sz0 = min (length (flatMembers ps)) 1000"
    by simp_all
  moreover have "pend = [] \<longleftrightarrow> flatMembers pend0 = []"
    unfolding r by (rule dropWhile_empty_Nil)
  ultimately show ?thesis using r
    by (simp add: dropWhile_empty_flat)
qed

termination getHandlers_loop
  by (relation "measure (\<lambda>(host, ty, fl, ident, pendingScopes, collected, sent).
        length (flatMembers pendingScopes))")
     (auto dest!: onePass_eq [OF sym])

declare getHandlers_loop.simps [simp del]

lemma getHandlers_loop_stall:
  "onePass pending = (cs, pend, sz) \<Longrightarrow>
   host \<lparr>msg_type = ty, flavor = fl, baseId = i, scopes = cs\<rparr> = None \<Longrightarrow>
   getHandlers_loop host ty fl i pending scr sent =
     (sent @ [\<lparr>msg_type = ty, flavor = fl, baseId = i, scopes = cs\<rparr>], None)"
  by (subst getHandlers_loop.simps) simp

lemma getHandlers_loop_step:
  "onePass pending = (cs, pend, sz) \<Longrightarrow>
   host \<lparr>msg_type = ty, flavor = fl, baseId = i, scopes = cs\<rparr> = Some resp \<Longrightarrow>
   getHandlers_loop host ty fl i pending scr sent =
     (if pend \<noteq> []
      then getHandlers_loop host ty fl (i + sz) pend (scr @ scripts resp)
             (sent @ [\<lparr>msg_type = ty, flavor = fl, baseId = i, scopes = cs\<rparr>])
      else (sent @ [\<lparr>msg_type = ty, flavor = fl, baseId = i, scopes = cs\<rparr>],
            Some \<lparr>scripts = scr @ scripts resp\<rparr>))"
  by (subst getHandlers_loop.simps) (simp add: Let_def)

lemma pagesOf_le [simp]: "n \<le> 1000 \<Longrightarrow> pagesOf n = 1"
  by (simp add: pagesOf_def)

lemma pagesOf_gt: "1000 < n \<Longrightarrow> pagesOf n = Suc (pagesOf (n - 1000))"
  by (simp add: pagesOf_def max_def) arith

lemma getHandlers_loop_invariant:
  assumes host: "\<And>r. \<exists>resp. host r = Some resp"
  shows "\<exists>reqs. getHandlers_loop host ty fl i pending scr sent =
           (sent @ reqs, Some \<lparr>scripts = scr @ concat (map (\<lambda>r. scripts (the (host r))) reqs)\<rparr>)
     \<and> length reqs = pagesOf (length (flatMembers pending))
     \<and> concat (map (\<lambda>r. flatMembers (scopes r)) reqs) = flatMembers pending
     \<and> (\<forall>j<length reqs.
           flatMembers (scopes (reqs ! j)) = take 1000 (drop (1000 * j) (flatMembers pending))
           \<and> baseId (reqs ! j) = i + 1000 * j \<and> flavor (reqs ! j) = fl \<and> msg_type (reqs ! j) = ty)"
proof (induction "length (flatMembers pending)" arbitrary: i pending scr sent rule: less_induct)
  case less
  obtain cs pend sz where pass: "onePass pending = (cs, pend, sz)"
    by (metis prod_cases3)
  note p = onePass_eq [OF pass]
  let ?req = "\<lparr>msg_type = ty, flavor = fl, baseId = i, scopes = cs\<rparr>"
  obtain resp where resp: "host ?req = Some resp" using host by blast
  have step: "getHandlers_loop host ty fl i pending scr sent =
     (if pend \<noteq> []
      then getHandlers_loop host ty fl (i + sz) pend (scr @ scripts resp) (sent @ [?req])
      else (sent @ [?req], Some \<lparr>scripts = scr @ scripts resp\<rparr>))"
    using pass resp by (rule getHandlers_loop_step)
  show ?case
  proof (cases "pend = []")
    case True
    with p have small: "length (flatMembers pending) \<le> 1000" by simp
    have "getHandlers_loop host ty fl i pending scr sent =
        (sent @ [?req], Some \<lparr>scripts = scr @ concat (map (\<lambda>r. scripts (the (host r))) [?req])\<rparr>)"
      using step True resp by simp
    moreover have "length [?req] = pagesOf (length (flatMembers pending))"
      using small by simp
    moreover have "concat (map (\<lambda>r. flatMembers (scopes r)) [?req]) = flatMembers pending"
      using p small by simp
    moreover have "\<forall>j<length [?req].
           flatMembers (scopes ([?req] ! j)) = take 1000 (drop (1000 * j) (flatMembers pending))
           \<and> baseId ([?req] ! j) = i + 1000 * j \<and> flavor ([?req] ! j) = fl \<and> msg_type ([?req] ! j) = ty"
      using p by simp
    ultimately show ?thesis by blast
  next
    case False
    with p have big: "1000 < length (flatMembers pending)" by simp
    with p have sz: "sz = 1000" by simp
    have fl_pend: "flatMembers pend = drop 1000 (flatMembers pending)" using p by simp
    then have "length (flatMembers pend) < length (flatMembers pending)" using big by simp
    from less [OF this, of "i + sz" "scr @ scripts resp" "sent @ [?req]"]
    obtain reqs where ih:
      "getHandlers_loop host ty fl (i + sz) pend (scr @ scripts resp) (sent @ [?req]) =
         ((sent @ [?req]) @ reqs,
          Some \<lparr>scripts = (scr @ scripts resp) @ concat (map (\<lambda>r. scripts (the (host r))) reqs)\<rparr>)"
      "length reqs = pagesOf (length (flatMembers pend))"
      "concat (map (\<lambda>r. flatMembers (scopes r)) reqs) = flatMembers pend"
      "\<forall>j<length reqs.
           flatMembers (scopes (reqs ! j)) = take 1000 (drop (1000 * j) (flatMembers pend))
           \<and> baseId (reqs ! j) = (i + sz) + 1000 * j \<and> flavor (reqs ! j) = fl \<and> msg_type (reqs ! j) = ty"
      by blast
    have "getHandlers_loop host ty fl i pending scr sent =
        (sent @ (?req # reqs),
         Some \<lparr>scripts = scr @ concat (map (\<lambda>r. scripts (the (host r))) (?req # reqs))\<rparr>)"
      using step False ih(1) resp by simp
    moreover have "length (?req # reqs) = pagesOf (length (flatMembers pending))"
      using ih(2) fl_pend pagesOf_gt [OF big] by simp
    moreover have "concat (map (\<lambda>r. flatMembers (scopes r)) (?req # reqs)) = flatMembers pending"
      using ih(3) p by simp
    moreover have "\<forall>j<length (?req # reqs).
           flatMembers (scopes ((?req # reqs) ! j)) = take 1000 (drop (1000 * j) (flatMembers pending))
           \<and> baseId ((?req # reqs) ! j) = i + 1000 * j \<and> flavor ((?req # reqs) ! j) = fl
           \<and> msg_type ((?req # reqs) ! j) = ty"
    proof (intro allI impI)
      fix j assume j: "j < length (?req # reqs)"
      show "flatMembers (scopes ((?req # reqs) ! j)) = take 1000 (drop (1000 * j) (flatMembers pending))
           \<and> baseId ((?req # reqs) ! j) = i + 1000 * j \<and> flavor ((?req # reqs) ! j) = fl
           \<and> msg_type ((?req # reqs) ! j) = ty"
      proof (cases j)
        case 0
        then show ?thesis using p by simp
      next
        case (Suc j')
        with j have "j' < length reqs" by simp
        with ih(4) have
          "flatMembers (scopes (reqs ! j')) = take 1000 (drop (1000 * j') (flatMembers pend))"
          "baseId (reqs ! j') = (i + sz) + 1000 * j'" "flavor (reqs ! j') = fl" "msg_type (reqs ! j') = ty"
          by simp_all
        then show ?thesis using Suc sz fl_pend by (simp add: add.commute)
      qed
    qed
    ultimately show ?thesis by blast
  qed
qed

lemma concat_pages_nth:
  "\<forall>j<length xss. length (xss ! j) = length (take c (drop (c * j) ys)) \<Longrightarrow>
   0 < c \<Longrightarrow> k < length ys \<Longrightarrow> length ys \<le> c * length xss \<Longrightarrow>
   concat xss ! k = xss ! (k div c) ! (k mod c)"
proof (induction xss arbitrary: ys k)
  case Nil
  then show ?case by simp
next
  case (Cons xs xss)
  from Cons.prems(1) have len0: "length xs = min (length ys) c" by fastforce
  show ?case
  proof (cases "k < c")
    case True
    with Cons.prems(3) len0 have "k < length xs" by simp
    with True show ?thesis by (simp add: nth_append)
  next
    case False
    then have kc: "c \<le> k" by simp
    with Cons.prems(3) len0 have len: "length xs = c" by simp
    have a: "\<forall>j<length xss. length (xss ! j) = length (take c (drop (c * j) (drop c ys)))"
    proof (intro allI impI)
      fix j assume "j < length xss"
      then have "Suc j < length (xs # xss)" by simp
      with Cons.prems(1) have "length ((xs # xss) ! Suc j) = length (take c (drop (c * Suc j) ys))"
        by blast
      then show "length (xss ! j) = length (take c (drop (c * j) (drop c ys)))"
        by (simp add: add.commute)
    qed
    have b: "k - c < length (drop c ys)" using Cons.prems(3) kc by simp
    have c: "length (drop c ys) \<le> c * length xss" using Cons.prems(4) by simp
    from Cons.IH [OF a Cons.prems(2) b c]
    have ih: "concat xss ! (k - c) = xss ! ((k - c) div c) ! ((k - c) mod c)" .
    have d: "(k - c) div c = k div c - 1" using kc Cons.prems(2)
      by (simp add: le_div_geq)
    have e: "(k - c) mod c = k mod c" using kc by (simp add: le_mod_geq)
    have f: "0 < k div c" using kc Cons.prems(2) by (simp add: div_greater_zero_iff)
    show ?thesis using ih len kc d e f by (simp add: nth_append nth_Cons')
  qed
qed

lemma answers_Some: "answers host \<Longrightarrow> \<exists>resp. host r = Some resp"
proof -
  assume "answers host"
  then have "case host r of None \<Rightarrow> False
      | Some resp \<Rightarrow> length (scripts resp) = length (flatMembers (scopes r))"
    by (simp add: answers_def)
  then show ?thesis by (cases "host r") simp_all
qed

lemma answers_length:
  "answers host \<Longrightarrow> length (scripts (the (host r))) = length (flatMembers (scopes r))"
proof -
  assume "answers host"
  then have "case host r of None \<Rightarrow> False
      | Some resp \<Rightarrow> length (scripts resp) = length (flatMembers (scopes r))"
    by (simp add: answers_def)
  then show ?thesis by (cases "host r") simp_all
qed

lemma pagesOf_pos: "1 \<le> n \<Longrightarrow> pagesOf n = (n + 999) div 1000"
  by (simp add: pagesOf_def max_def)

lemma pagesOf_covers: "n \<le> 1000 * pagesOf n"
proof -
  let ?q = "(n + 999) div 1000"
  have "n + 999 = 1000 * ?q + (n + 999) mod 1000" by simp
  moreover have "(n + 999) mod 1000 < 1000" by simp
  ultimately have "n \<le> 1000 * ?q" by linarith
  moreover have "?q \<le> pagesOf n" by (simp add: pagesOf_def)
  ultimately show ?thesis by (meson mult_le_mono2 order_trans)
qed

lemma pagesOf_full: "Suc j < pagesOf n \<Longrightarrow> 1000 * j + 1000 \<le> n"
proof -
  assume a: "Suc j < pagesOf n"
  let ?q = "(n + 999) div 1000"
  from a have "Suc j < ?q" by (simp add: pagesOf_def max_def split: if_splits)
  then have "1000 * (j + 2) \<le> 1000 * ?q" by simp
  moreover have "1000 * ?q \<le> n + 999" by simp
  ultimately show ?thesis by simp
qed

lemma fillScopes_no_members:
  "flatMembers ps = [] \<Longrightarrow> fillScopes sz cur ps = (cur @ ps, ps, sz)"
proof (induction ps arbitrary: cur)
  case Nil
  then show ?case by simp
next
  case (Cons s rest)
  then have e: "members s = []" and r: "flatMembers rest = []" by simp_all
  have s1: "s\<lparr>members := []\<rparr> = s" using e by simp
  have s2: "\<lparr>scope_name = scope_name s, members = []\<rparr> = s" using e by simp
  show ?case using Cons.IH [OF r] e s1 s2 by simp
qed

lemma onePass_no_members: "flatMembers ps = [] \<Longrightarrow> onePass ps = (ps, [], 0)"
  using dropWhile_empty_Nil [of ps] by (simp add: onePass_def fillScopes_no_members)

lemma getHandlers_loop_sends:
  "length sent < length (fst (getHandlers_loop host ty fl i pending scr sent))"
proof (induction "length (flatMembers pending)" arbitrary: i pending scr sent rule: less_induct)
  case less
  obtain cs pend sz where pass: "onePass pending = (cs, pend, sz)"
    by (metis prod_cases3)
  note p = onePass_eq [OF pass]
  let ?req = "\<lparr>msg_type = ty, flavor = fl, baseId = i, scopes = cs\<rparr>"
  show ?case
  proof (cases "host ?req")
    case None
    have "getHandlers_loop host ty fl i pending scr sent = (sent @ [?req], None)"
      using pass None by (rule getHandlers_loop_stall)
    then show ?thesis by simp
  next
    case (Some resp)
    have step: "getHandlers_loop host ty fl i pending scr sent =
     (if pend \<noteq> []
      then getHandlers_loop host ty fl (i + sz) pend (scr @ scripts resp) (sent @ [?req])
      else (sent @ [?req], Some \<lparr>scripts = scr @ scripts resp\<rparr>))"
      using pass Some by (rule getHandlers_loop_step)
    show ?thesis
    proof (cases "pend = []")
      case True
      with step show ?thesis by simp
    next
      case False
      with p have "1000 < length (flatMembers pending)" by simp
      with p have "length (flatMembers pend) < length (flatMembers pending)" by simp
      from less [OF this]
      have "length (sent @ [?req]) < length (fst (getHandlers_loop host ty fl (i + sz) pend
          (scr @ scripts resp) (sent @ [?req])))" .
      with step False show ?thesis by simp
    qed
  qed
qed

lemma flatPairs_simps [simp]:
  "flatPairs [] = []"
  "flatPairs (s # ss) = map (Pair (scope_name s)) (members s) @ flatPairs ss"
  "flatPairs (ss @ ts) = flatPairs ss @ flatPairs ts"
  by (simp_all add: flatPairs_def)

lemma length_flatPairs: "length (flatPairs ss) = length (flatMembers ss)"
  by (induction ss) simp_all

lemma fillScopes_pairs:
  "sz < 1000 \<Longrightarrow> fillScopes sz cur ps = (cs, pend, sz') \<Longrightarrow>
     flatPairs cs = flatPairs cur @ take (1000 - sz) (flatPairs ps)
     \<and> flatPairs pend = drop (1000 - sz) (flatPairs ps)"
proof (induction ps arbitrary: sz cur cs pend sz')
  case Nil
  then show ?case by auto
next
  case (Cons s rest)
  let ?ms = "members s"
  have tm: "takeMembers sz [] ?ms =
      (take (1000 - sz) ?ms, sz + min (length ?ms) (1000 - sz), 1000 - sz \<le> length ?ms)"
    using takeMembers_eq [OF Cons.prems(1), of "[]" ?ms] by simp
  show ?case
  proof (cases "1000 - sz \<le> length ?ms")
    case True
    define k where "k = 1000 - sz"
    from True have k: "k \<le> length ?ms" by (simp add: k_def)
    from Cons.prems(2) tm True have res:
      "cs = cur @ [\<lparr>scope_name = scope_name s, members = take k ?ms\<rparr>]"
      "pend = s\<lparr>members := drop (length (take k ?ms)) ?ms\<rparr> # rest"
      by (simp_all add: Let_def k_def)
    from k have "length (take k ?ms) = k" by simp
    with res k show ?thesis
      unfolding k_def [symmetric] by (simp add: take_map drop_map)
  next
    case False
    then have short: "length ?ms < 1000 - sz" by simp
    then have lt: "sz + length ?ms < 1000" by simp
    obtain cs0 pend0 sz0 where rec:
      "fillScopes (sz + length ?ms)
         (cur @ [\<lparr>scope_name = scope_name s, members = ?ms\<rparr>]) rest = (cs0, pend0, sz0)"
      by (metis prod_cases3)
    from Cons.IH [OF lt rec] have ih:
      "flatPairs cs0 = flatPairs cur @ map (Pair (scope_name s)) ?ms
          @ take (1000 - (sz + length ?ms)) (flatPairs rest)"
      "flatPairs pend0 = drop (1000 - (sz + length ?ms)) (flatPairs rest)"
      by simp_all
    from Cons.prems(2) tm short rec have res:
      "cs = cs0" "pend = s\<lparr>members := []\<rparr> # pend0"
      by (auto simp: Let_def min_def)
    show ?thesis using ih res short by (auto simp: min_def)
  qed
qed

lemma dropWhile_empty_pairs:
  "flatPairs (dropWhile (\<lambda>s. members s = []) ps) = flatPairs ps"
  by (induction ps) auto

lemma onePass_pairs:
  "onePass ps = (cs, pend, sz) \<Longrightarrow>
     flatPairs cs = take 1000 (flatPairs ps) \<and> flatPairs pend = drop 1000 (flatPairs ps)"
proof -
  assume a: "onePass ps = (cs, pend, sz)"
  obtain cs0 pend0 sz0 where f: "fillScopes 0 [] ps = (cs0, pend0, sz0)"
    by (metis prod_cases3)
  from a f have r: "cs = cs0" "pend = dropWhile (\<lambda>s. members s = []) pend0"
    by (simp_all add: onePass_def)
  from fillScopes_pairs [OF _ f] have
    "flatPairs cs0 = take 1000 (flatPairs ps)" "flatPairs pend0 = drop 1000 (flatPairs ps)"
    by simp_all
  then show ?thesis using r by (simp add: dropWhile_empty_pairs)
qed

lemma getHandlers_loop_pairs:
  assumes host: "\<And>r. \<exists>resp. host r = Some resp"
  shows "\<exists>reqs. fst (getHandlers_loop host ty fl i pending scr sent) = sent @ reqs
     \<and> concat (map (\<lambda>r. flatPairs (scopes r)) reqs) = flatPairs pending"
proof (induction "length (flatMembers pending)" arbitrary: i pending scr sent rule: less_induct)
  case less
  obtain cs pend sz where pass: "onePass pending = (cs, pend, sz)"
    by (metis prod_cases3)
  note p = onePass_eq [OF pass]
  note q = onePass_pairs [OF pass]
  let ?req = "\<lparr>msg_type = ty, flavor = fl, baseId = i, scopes = cs\<rparr>"
  obtain resp where resp: "host ?req = Some resp" using host by blast
  have step: "getHandlers_loop host ty fl i pending scr sent =
     (if pend \<noteq> []
      then getHandlers_loop host ty fl (i + sz) pend (scr @ scripts resp) (sent @ [?req])
      else (sent @ [?req], Some \<lparr>scripts = scr @ scripts resp\<rparr>))"
    using pass resp by (rule getHandlers_loop_step)
  show ?case
  proof (cases "pend = []")
    case True
    with q have "drop 1000 (flatPairs pending) = []" by simp
    then have "take 1000 (flatPairs pending) = flatPairs pending" by simp
    with q have "concat (map (\<lambda>r. flatPairs (scopes r)) [?req]) = flatPairs pending" by simp
    moreover have "fst (getHandlers_loop host ty fl i pending scr sent) = sent @ [?req]"
      using step True by simp
    ultimately show ?thesis by blast
  next
    case False
    with p have "1000 < length (flatMembers pending)" by simp
    with p have "length (flatMembers pend) < length (flatMembers pending)" by simp
    from less [OF this, of "i + sz" "scr @ scripts resp" "sent @ [?req]"]
    obtain reqs where ih:
      "fst (getHandlers_loop host ty fl (i + sz) pend (scr @ scripts resp) (sent @ [?req]))
         = (sent @ [?req]) @ reqs"
      "concat (map (\<lambda>r. flatPairs (scopes r)) reqs) = flatPairs pend"
      by blast
    have "fst (getHandlers_loop host ty fl i pending scr sent) = sent @ (?req # reqs)"
      using step False ih(1) by simp
    moreover have "concat (map (\<lambda>r. flatPairs (scopes r)) (?req # reqs)) = flatPairs pending"
      using ih(2) q by simp
    ultimately show ?thesis by blast
  qed
qed

lemma getHandlers_pairs:
  assumes "answers host"
  shows "concat (map (\<lambda>r. flatPairs (scopes r)) (fst (getHandlers host request)))
     = flatPairs (scopes request)"
proof -
  from getHandlers_loop_pairs [of host "msg_type request" "flavor request" "baseId request"
      "scopes request" "[]" "[]"] answers_Some [OF assms]
  obtain reqs where "fst (getHandlers host request) = [] @ reqs"
    "concat (map (\<lambda>r. flatPairs (scopes r)) reqs) = flatPairs (scopes request)"
    unfolding getHandlers_def by blast
  then show ?thesis by simp
qed

subsection \<open>Claims about handler provisioning\<close>

text \<open>
  Claim C1. For every flavor and every ordered list of (scope, members) groups with
  \<open>N \<ge> 1\<close> members in total, and a host that answers every request with one script
  per requested member: \<^verbatim>\<open>getHandlers\<close> sends exactly \<open>\<lceil>N / 1000\<rceil>\<close> requests of
  the request's type and flavor, each carrying at most 1000 members; the members of the
  requests, concatenated, are the flattened input member list; the first request is tagged
  with \<^verbatim>\<open>baseId\<close> and every later one with the previous id plus the number of members
  of the previous request; the call returns the concatenation of the replies, which has
  \<open>N\<close> scripts, and its \<open>k\<close>-th script is the script the host returned for the
  \<open>k\<close>-th member of the flattened input, whose target id is \<^verbatim>\<open>baseId + k\<close>.
  Every member is requested under the name of its own scope: the (scope name, member)
  pairs of the requests, concatenated, are those of the input. The number of requests
  is stated for a host that answers, since the call stalls at the first request that is
  not answered.
\<close>

theorem getHandlers_pagination:
  assumes host: "answers host"
    and N: "N = length (flatMembers (scopes request))"
    and pos: "1 \<le> N"
  shows "\<exists>sent scs. getHandlers host request = (sent, Some \<lparr>scripts = scs\<rparr>)
     \<and> length sent = (N + 999) div 1000
     \<and> (\<forall>j<length sent. length (flatMembers (scopes (sent ! j))) \<le> 1000
            \<and> flavor (sent ! j) = flavor request \<and> msg_type (sent ! j) = msg_type request)
     \<and> concat (map (\<lambda>r. flatMembers (scopes r)) sent) = flatMembers (scopes request)
     \<and> baseId (sent ! 0) = baseId request
     \<and> (\<forall>j. Suc j < length sent \<longrightarrow>
            baseId (sent ! Suc j) = baseId (sent ! j) + length (flatMembers (scopes (sent ! j))))
     \<and> scs = concat (map (\<lambda>r. scripts (the (host r))) sent)
     \<and> length scs = N
     \<and> (\<forall>k<N. flatMembers (scopes (sent ! (k div 1000))) ! (k mod 1000)
                = flatMembers (scopes request) ! k
            \<and> scs ! k = scripts (the (host (sent ! (k div 1000)))) ! (k mod 1000)
            \<and> baseId (sent ! (k div 1000)) + k mod 1000 = baseId request + k)
     \<and> concat (map (\<lambda>r. flatPairs (scopes r)) sent) = flatPairs (scopes request)"
proof -
  let ?flat = "flatMembers (scopes request)"
  have "\<exists>reqs. getHandlers_loop host (msg_type request) (flavor request) (baseId request)
            (scopes request) [] [] =
           ([] @ reqs, Some \<lparr>scripts = [] @ concat (map (\<lambda>r. scripts (the (host r))) reqs)\<rparr>)
     \<and> length reqs = pagesOf (length ?flat)
     \<and> concat (map (\<lambda>r. flatMembers (scopes r)) reqs) = ?flat
     \<and> (\<forall>j<length reqs.
           flatMembers (scopes (reqs ! j)) = take 1000 (drop (1000 * j) ?flat)
           \<and> baseId (reqs ! j) = baseId request + 1000 * j \<and> flavor (reqs ! j) = flavor request
           \<and> msg_type (reqs ! j) = msg_type request)"
    by (rule getHandlers_loop_invariant) (rule answers_Some [OF host])
  then obtain sent where inv:
    "getHandlers_loop host (msg_type request) (flavor request) (baseId request)
            (scopes request) [] [] =
           ([] @ sent, Some \<lparr>scripts = [] @ concat (map (\<lambda>r. scripts (the (host r))) sent)\<rparr>)
     \<and> length sent = pagesOf (length ?flat)
     \<and> concat (map (\<lambda>r. flatMembers (scopes r)) sent) = ?flat
     \<and> (\<forall>j<length sent.
           flatMembers (scopes (sent ! j)) = take 1000 (drop (1000 * j) ?flat)
           \<and> baseId (sent ! j) = baseId request + 1000 * j \<and> flavor (sent ! j) = flavor request
           \<and> msg_type (sent ! j) = msg_type request)" ..
  have run: "getHandlers host request =
        (sent, Some \<lparr>scripts = concat (map (\<lambda>r. scripts (the (host r))) sent)\<rparr>)"
    using inv by (simp add: getHandlers_def)
  have len: "length sent = pagesOf N" using inv N by simp
  have cat: "concat (map (\<lambda>r. flatMembers (scopes r)) sent) = ?flat" using inv by simp
  have page: "flatMembers (scopes (sent ! j)) = take 1000 (drop (1000 * j) ?flat)
           \<and> baseId (sent ! j) = baseId request + 1000 * j \<and> flavor (sent ! j) = flavor request
           \<and> msg_type (sent ! j) = msg_type request" if "j < length sent" for j
    using inv that by blast
  let ?scs = "concat (map (\<lambda>r. scripts (the (host r))) sent)"
  have count: "length sent = (N + 999) div 1000"
    using len pagesOf_pos [OF pos] by simp
  have bound: "\<forall>j<length sent. length (flatMembers (scopes (sent ! j))) \<le> 1000
            \<and> flavor (sent ! j) = flavor request \<and> msg_type (sent ! j) = msg_type request"
    using page by simp
  have first: "baseId (sent ! 0) = baseId request"
    using page [of 0] len by (simp add: pagesOf_def)
  have ids: "\<forall>j. Suc j < length sent \<longrightarrow>
            baseId (sent ! Suc j) = baseId (sent ! j) + length (flatMembers (scopes (sent ! j)))"
  proof (intro allI impI)
    fix j assume j: "Suc j < length sent"
    then have "1000 * j + 1000 \<le> N" using len pagesOf_full by simp
    then have "length (take 1000 (drop (1000 * j) ?flat)) = 1000" using N by simp
    with page [of j] page [of "Suc j"] j
    show "baseId (sent ! Suc j) = baseId (sent ! j) + length (flatMembers (scopes (sent ! j)))"
      by simp
  qed
  have scs_len: "length ?scs = N"
  proof -
    have "length ?scs = length (concat (map (\<lambda>r. flatMembers (scopes r)) sent))"
      by (simp add: length_concat comp_def answers_length [OF host])
    then show ?thesis using cat N by simp
  qed
  have cover: "length ?flat \<le> 1000 * length sent"
    using len N pagesOf_covers [of N] by simp
  have align: "\<forall>k<N. flatMembers (scopes (sent ! (k div 1000))) ! (k mod 1000) = ?flat ! k
            \<and> ?scs ! k = scripts (the (host (sent ! (k div 1000)))) ! (k mod 1000)
            \<and> baseId (sent ! (k div 1000)) + k mod 1000 = baseId request + k"
  proof (intro allI impI)
    fix k assume k: "k < N"
    then have kf: "k < length ?flat" using N by simp
    have j: "k div 1000 < length sent" using kf cover
      by (simp add: less_mult_imp_div_less mult.commute order_less_le_trans)
    have m: "map (\<lambda>r. flatMembers (scopes r)) sent ! (k div 1000) = flatMembers (scopes (sent ! (k div 1000)))"
      using j by simp
    have s: "map (\<lambda>r. scripts (the (host r))) sent ! (k div 1000) = scripts (the (host (sent ! (k div 1000))))"
      using j by simp
    have "concat (map (\<lambda>r. flatMembers (scopes r)) sent) ! k
        = map (\<lambda>r. flatMembers (scopes r)) sent ! (k div 1000) ! (k mod 1000)"
      by (rule concat_pages_nth [where ys = ?flat]) (use page kf cover in simp_all)
    then have one: "flatMembers (scopes (sent ! (k div 1000))) ! (k mod 1000) = ?flat ! k"
      using cat m by simp
    have "?scs ! k = map (\<lambda>r. scripts (the (host r))) sent ! (k div 1000) ! (k mod 1000)"
      by (rule concat_pages_nth [where ys = ?flat])
         (use page kf cover answers_length [OF host] in simp_all)
    then have two: "?scs ! k = scripts (the (host (sent ! (k div 1000)))) ! (k mod 1000)"
      using s by simp
    have three: "baseId (sent ! (k div 1000)) + k mod 1000 = baseId request + k"
      using page [OF j] by simp
    from one two three show "flatMembers (scopes (sent ! (k div 1000))) ! (k mod 1000) = ?flat ! k
            \<and> ?scs ! k = scripts (the (host (sent ! (k div 1000)))) ! (k mod 1000)
            \<and> baseId (sent ! (k div 1000)) + k mod 1000 = baseId request + k"
      by blast
  qed
  show ?thesis
  proof (rule exI [of _ sent], rule exI [of _ ?scs], intro conjI)
    show "getHandlers host request = (sent, Some \<lparr>scripts = ?scs\<rparr>)" by (rule run)
    show "length sent = (N + 999) div 1000" by (rule count)
    show "\<forall>j<length sent. length (flatMembers (scopes (sent ! j))) \<le> 1000
            \<and> flavor (sent ! j) = flavor request \<and> msg_type (sent ! j) = msg_type request"
      by (rule bound)
    show "concat (map (\<lambda>r. flatMembers (scopes r)) sent) = ?flat" by (rule cat)
    show "baseId (sent ! 0) = baseId request" by (rule first)
    show "\<forall>j. Suc j < length sent \<longrightarrow>
            baseId (sent ! Suc j) = baseId (sent ! j) + length (flatMembers (scopes (sent ! j)))"
      by (rule ids)
    show "?scs = ?scs" by (rule refl)
    show "length ?scs = N" by (rule scs_len)
    show "\<forall>k<N. flatMembers (scopes (sent ! (k div 1000))) ! (k mod 1000) = ?flat ! k
            \<and> ?scs ! k = scripts (the (host (sent ! (k div 1000)))) ! (k mod 1000)
            \<and> baseId (sent ! (k div 1000)) + k mod 1000 = baseId request + k"
      by (rule align)
    show "concat (map (\<lambda>r. flatPairs (scopes r)) sent) = flatPairs (scopes request)"
      using getHandlers_pairs [OF host, of request] run by simp
  qed
qed

text \<open>
  The theorem at 2500 members in two groups (1200 and 1300), from \<^verbatim>\<open>baseId = 1\<close>:
  three requests are sent and 2500 scripts come back.
\<close>

theorem getHandlers_pagination_witness:
  "\<exists>sent scs.
     getHandlers (\<lambda>r. Some \<lparr>scripts = map (\<lambda>m. ''{}'') (flatMembers (scopes r))\<rparr>)
       \<lparr>msg_type = ''handlers:get'', flavor = FlavorObjC, baseId = 1,
        scopes = [\<lparr>scope_name = ''NSString'', members = replicate 1200 (Bare ''length'')\<rparr>,
                  \<lparr>scope_name = ''NSArray'', members = replicate 1300 (Bare ''count'')\<rparr>]\<rparr>
       = (sent, Some \<lparr>scripts = scs\<rparr>)
     \<and> length sent = 3 \<and> length scs = 2500
     \<and> baseId (sent ! 0) = 1"
proof -
  let ?host = "\<lambda>r. Some \<lparr>scripts = map (\<lambda>m. ''{}'') (flatMembers (scopes r))\<rparr>"
  let ?req = "\<lparr>msg_type = ''handlers:get'', flavor = FlavorObjC, baseId = 1,
        scopes = [\<lparr>scope_name = ''NSString'', members = replicate 1200 (Bare ''length'')\<rparr>,
                  \<lparr>scope_name = ''NSArray'', members = replicate 1300 (Bare ''count'')\<rparr>]\<rparr>"
  have a: "answers ?host" by (simp add: answers_def)
  have n: "(2500::nat) = length (flatMembers (scopes ?req))" by simp
  have p: "(1::nat) \<le> 2500" by simp
  from getHandlers_pagination [OF a n p] obtain sent scs where
    r: "getHandlers ?host ?req = (sent, Some \<lparr>scripts = scs\<rparr>)
     \<and> length sent = (2500 + 999) div 1000
     \<and> (\<forall>j<length sent. length (flatMembers (scopes (sent ! j))) \<le> 1000
            \<and> flavor (sent ! j) = flavor ?req \<and> msg_type (sent ! j) = msg_type ?req)
     \<and> concat (map (\<lambda>r. flatMembers (scopes r)) sent) = flatMembers (scopes ?req)
     \<and> baseId (sent ! 0) = baseId ?req
     \<and> (\<forall>j. Suc j < length sent \<longrightarrow>
            baseId (sent ! Suc j) = baseId (sent ! j) + length (flatMembers (scopes (sent ! j))))
     \<and> scs = concat (map (\<lambda>r. scripts (the (?host r))) sent)
     \<and> length scs = 2500
     \<and> (\<forall>k<2500. flatMembers (scopes (sent ! (k div 1000))) ! (k mod 1000)
                = flatMembers (scopes ?req) ! k
            \<and> scs ! k = scripts (the (?host (sent ! (k div 1000)))) ! (k mod 1000)
            \<and> baseId (sent ! (k div 1000)) + k mod 1000 = baseId ?req + k)
     \<and> concat (map (\<lambda>r. flatPairs (scopes r)) sent) = flatPairs (scopes ?req)"
    by (elim exE)
  note r1 = r [THEN conjunct1]
  note r2 = r [THEN conjunct2, THEN conjunct1]
  note r5 = r [THEN conjunct2, THEN conjunct2, THEN conjunct2, THEN conjunct2, THEN conjunct1]
  note r8 = r [THEN conjunct2, THEN conjunct2, THEN conjunct2, THEN conjunct2, THEN conjunct2,
      THEN conjunct2, THEN conjunct2, THEN conjunct1]
  have "length sent = 3" using r2 by simp
  moreover have "baseId (sent ! 0) = 1" using r5 by simp
  ultimately show ?thesis using r1 r8 by blast
qed

text \<open>
  Claim C10. \<^verbatim>\<open>getHandlers\<close> always sends at least one request, whatever the host does.
  When the scopes of the request hold no member at all, exactly one message is sent, the
  request itself (all its member lists are empty), and the call returns what the host
  replies to it: it stalls (\<open>None\<close>) on a host that does not answer.
\<close>

theorem getHandlers_always_one_round_trip:
  "fst (getHandlers host request) \<noteq> []
   \<and> (flatMembers (scopes request) = [] \<longrightarrow>
        getHandlers host request = ([request], host request))"
proof (intro conjI impI)
  show "fst (getHandlers host request) \<noteq> []"
    using getHandlers_loop_sends [of "[]" host "msg_type request" "flavor request"
        "baseId request" "scopes request" "[]"]
    by (auto simp: getHandlers_def)
next
  assume e: "flatMembers (scopes request) = []"
  let ?req = "\<lparr>msg_type = msg_type request, flavor = flavor request,
      baseId = baseId request, scopes = scopes request\<rparr>"
  have req: "?req = request" by simp
  have pass: "onePass (scopes request) = (scopes request, [], 0)"
    using e by (rule onePass_no_members)
  show "getHandlers host request = ([request], host request)"
  proof (cases "host request")
    case None
    then have "host ?req = None" unfolding req .
    with pass have "getHandlers_loop host (msg_type request) (flavor request) (baseId request)
        (scopes request) [] [] = ([] @ [?req], None)"
      by (rule getHandlers_loop_stall)
    with None show ?thesis by (simp add: getHandlers_def)
  next
    case (Some resp)
    then have "host ?req = Some resp" unfolding req .
    with pass have "getHandlers_loop host (msg_type request) (flavor request) (baseId request)
        (scopes request) [] [] =
      (if ([] :: HandlerRequestScope list) \<noteq> []
       then getHandlers_loop host (msg_type request) (flavor request) (baseId request + 0) []
             ([] @ scripts resp) ([] @ [?req])
       else ([] @ [?req], Some \<lparr>scripts = [] @ scripts resp\<rparr>))"
      by (rule getHandlers_loop_step)
    with Some show ?thesis by (simp add: getHandlers_def)
  qed
qed

text \<open>The theorem at two empty scopes and a host that never answers: one request is sent
  and the call stalls.\<close>

theorem getHandlers_always_one_round_trip_witness:
  "getHandlers (\<lambda>r. None)
     \<lparr>msg_type = ''handlers:get'', flavor = FlavorC, baseId = 1,
      scopes = [\<lparr>scope_name = ''libfoo'', members = []\<rparr>, \<lparr>scope_name = ''libbar'', members = []\<rparr>]\<rparr>
   = ([\<lparr>msg_type = ''handlers:get'', flavor = FlavorC, baseId = 1,
      scopes = [\<lparr>scope_name = ''libfoo'', members = []\<rparr>, \<lparr>scope_name = ''libbar'', members = []\<rparr>]\<rparr>],
      None)"
  using getHandlers_always_one_round_trip [of "\<lambda>r. None"
     "\<lparr>msg_type = ''handlers:get'', flavor = FlavorC, baseId = 1,
      scopes = [\<lparr>scope_name = ''libfoo'', members = []\<rparr>, \<lparr>scope_name = ''libbar'', members = []\<rparr>]\<rparr>"]
  by simp

section \<open>Properties: dispatch and depth tracking\<close>

lemma emit_events [simp]:
  "pendingEvents (emit e a) = pendingEvents a @ [e]" "stackDepth (emit e a) = stackDepth a"
  "started (emit e a) = started a"
  by (simp_all add: emit_def Let_def)

lemma fold_emit_events:
  "pendingEvents (fold (\<lambda>m. emit (f m)) ms a) = pendingEvents a @ map f ms
   \<and> stackDepth (fold (\<lambda>m. emit (f m)) ms a) = stackDepth a
   \<and> started (fold (\<lambda>m. emit (f m)) ms a) = started a"
  by (induction ms arbitrary: a) simp_all

lemma invokeNativeHandler_eq:
  "updateDepth (stackDepth a) tid c = (d, entries) \<Longrightarrow>
   pendingEvents (invokeNativeHandler now i cb tid p c a) =
     pendingEvents a @ map (\<lambda>m. (i, now - started a, tid, d, join m)) (cb p)
   \<and> stackDepth (invokeNativeHandler now i cb tid p c a) = entries
   \<and> started (invokeNativeHandler now i cb tid p c a) = started a"
  by (simp add: invokeNativeHandler_def fold_emit_events)

lemma depthOf_updateDepth:
  "depthOf (snd (updateDepth m t c)) t = depthOf m t + (case c of Enter \<Rightarrow> 1 | Leave \<Rightarrow> - 1)"
  by (simp add: updateDepth_def depthOf_def Let_def split: CutPoint.splits option.splits)

lemma runCutPoints_append:
  "runCutPoints t (cs @ ds) m = runCutPoints t ds (runCutPoints t cs m)"
  by (induction cs arbitrary: m) simp_all

lemma balance_append: "balance (cs @ ds) = balance cs + balance ds"
  by (induction cs rule: balance.induct) simp_all

lemma depthOf_runCutPoints: "depthOf (runCutPoints t cs m) t = depthOf m t + balance cs"
proof (induction cs arbitrary: m)
  case Nil
  then show ?case by simp
next
  case (Cons c cs)
  then show ?case by (cases c) (simp_all add: depthOf_updateDepth)
qed

lemma runCutPoints_other: "u \<noteq> t \<Longrightarrow> runCutPoints t cs m u = m u"
proof (induction cs arbitrary: m)
  case Nil
  then show ?case by simp
next
  case (Cons c cs)
  then show ?case
    by (cases c) (simp_all add: updateDepth_def Let_def)
qed

lemma updateDepth_Leave_entry:
  "snd (updateDepth m t Leave) t = None \<longleftrightarrow> depthOf m t = 1"
  by (simp add: updateDepth_def depthOf_def Let_def split: option.splits)

lemma updateDepth_Enter_entry: "snd (updateDepth m t Enter) t \<noteq> None"
  by (simp add: updateDepth_def Let_def)

lemma runCutPoints_nested:
  "nested d cs \<Longrightarrow> m t = (if d = 0 then None else Some (int d)) \<Longrightarrow>
   runCutPoints t cs m t = None"
proof (induction d cs arbitrary: m rule: nested.induct)
  case (1 d)
  then show ?case by simp
next
  case (2 d cs)
  have "snd (updateDepth m t Enter) t = Some (int (Suc d))"
    using "2.prems"(2) by (simp add: updateDepth_def Let_def)
  with "2.IH" [of "snd (updateDepth m t Enter)"] "2.prems"(1) show ?case by simp
next
  case (3 d cs)
  then have d: "0 < d" and n: "nested (d - 1) cs" by simp_all
  have "snd (updateDepth m t Leave) t = (if d - 1 = 0 then None else Some (int (d - 1)))"
    using "3.prems"(2) d by (auto simp: updateDepth_def Let_def)
  with "3.IH" [OF n, of "snd (updateDepth m t Leave)"] show ?case by simp
qed

lemma runCutPoints_balanced:
  assumes "m t = None" and "balance cs = 0"
  shows "runCutPoints t cs m t = None \<longleftrightarrow> cs = [] \<or> last cs = Leave"
proof (cases cs rule: rev_cases)
  case Nil
  with assms show ?thesis by simp
next
  case (snoc ds c)
  let ?m = "runCutPoints t ds m"
  have run: "runCutPoints t cs m = snd (updateDepth ?m t c)"
    using snoc by (simp add: runCutPoints_append)
  have d0: "depthOf m t = 0" using assms(1) by (simp add: depthOf_def)
  show ?thesis
  proof (cases c)
    case Enter
    with run snoc updateDepth_Enter_entry [of ?m t] show ?thesis by simp
  next
    case Leave
    with assms(2) snoc have "balance ds = 1" by (simp add: balance_append)
    then have "depthOf ?m t = 1" using d0 by (simp add: depthOf_runCutPoints)
    then have "snd (updateDepth ?m t Leave) t = None" by (simp add: updateDepth_Leave_entry)
    with run snoc Leave show ?thesis by simp
  qed
qed

subsection \<open>Claims about the dispatcher\<close>

text \<open>
  Claim C2, as stated, fails: a single traced native call on a thread with no depth entry,
  whose handlers log once each, produces one enter and one leave event, and both carry
  depth 0, not 1. \<^verbatim>\<open>updateDepth\<close> returns the depth read before the increment on
  entry and the decremented depth on exit.
\<close>

theorem nativeCall_depth_counterexample:
  "pendingEvents (nativeCall 1 (\<lambda>args. [[''bar()'']], \<lambda>retval. [[''ret'']]) 7 10 () 20 ()
     \<lparr>stackDepth = Map.empty, started = 0, pendingEvents = [], flushTimer = False\<rparr>)
   = [(1, 10, 7, 0, ''bar()''), (1, 20, 7, 0, ''ret'')]
   \<and> map eventDepth [(1, 10, 7, 0, ''bar()''), (1, 20, 7, 0, ''ret'')] \<noteq> [1, 1]"
  by (simp add: eventDepth_def nativeCall_def invokeNativeHandler_def updateDepth_def emit_def Let_def)

text \<open>
  Claim C2, amended. For a single traced native call on a thread with no existing depth
  entry, whose enter and leave handlers each call \<^verbatim>\<open>log\<close> once, and with the clock not
  going backwards between the two callbacks, the dispatcher appends exactly one enter
  event and one leave event, both carrying depth 0, the enter event's timestamp is not
  later than the leave event's, and the thread has no depth entry afterwards.
\<close>

theorem nativeCall_single:
  assumes "stackDepth a threadId = None"
    and "now1 \<le> now2"
    and "fst handler args = [m1]" and "snd handler retval = [m2]"
  shows "pendingEvents (nativeCall ident handler threadId now1 args now2 retval a) =
      pendingEvents a @ [(ident, now1 - started a, threadId, 0, join m1),
                         (ident, now2 - started a, threadId, 0, join m2)]
    \<and> now1 - started a \<le> now2 - started a
    \<and> stackDepth (nativeCall ident handler threadId now1 args now2 retval a) threadId = None"
proof -
  let ?a1 = "invokeNativeHandler now1 ident (fst handler) threadId args Enter a"
  have u1: "updateDepth (stackDepth a) threadId Enter = (0, (stackDepth a)(threadId \<mapsto> 1))"
    using assms(1) by (simp add: updateDepth_def)
  note e1 = invokeNativeHandler_eq [OF u1, of now1 ident "fst handler" args]
  have u2: "updateDepth (stackDepth ?a1) threadId Leave = (0, (stackDepth a)(threadId := None))"
    using e1 by (simp add: updateDepth_def)
  note e2 = invokeNativeHandler_eq [OF u2, of now2 ident "snd handler" retval]
  show ?thesis using e1 e2 assms by (simp add: nativeCall_def)
qed

text \<open>The theorem on a session started at clock 1000, for a call entered at 1010 and
  left at 1020 on thread 7.\<close>

theorem nativeCall_single_witness:
  "pendingEvents (nativeCall 1 (\<lambda>args. [[''open'', ''(path)'']], \<lambda>retval. [[''=> 3'']]) 7 1010 () 1020 ()
     \<lparr>stackDepth = Map.empty, started = 1000, pendingEvents = [], flushTimer = False\<rparr>)
   = [(1, 10, 7, 0, ''open (path)''), (1, 20, 7, 0, ''=> 3'')]"
  using nativeCall_single [of "\<lparr>stackDepth = Map.empty, started = 1000, pendingEvents = [], flushTimer = False\<rparr>"
      7 1010 1020 "(\<lambda>args. [[''open'', ''(path)'']], \<lambda>retval. [[''=> 3'']])" "()" "[''open'', ''(path)'']"
      "()" "[''=> 3'']" 1]
  by simp

text \<open>
  Claim C3, as stated, fails: the sequence exit, enter on a thread with no entry has as
  many enters as exits, and leaves the entry \<open>0\<close> in the table. The exit stores
  \<open>-1\<close>, and the enter that follows stores \<open>0\<close>; only an exit deletes.
\<close>

theorem updateDepth_balanced_counterexample:
  "balance [Leave, Enter] = 0
   \<and> runCutPoints 7 [Leave, Enter] Map.empty 7 = Some 0"
  by (simp add: updateDepth_def Let_def)

text \<open>
  Claim C3, amended. Starting from a table with no entry for the thread: after every
  properly nested sequence of enter/exit callbacks on the thread (every exit closes an
  earlier enter, none is left open) the table holds no entry for the thread; more
  generally, after a sequence with as many enters as exits the table holds no entry for
  the thread exactly when the sequence is empty or ends with an exit. An exit at stored
  depth 1 returns depth 0 and deletes the thread's entry. The entries of other threads
  are never touched.
\<close>

theorem updateDepth_no_entry_when_balanced:
  "(depthEntries threadId = None \<and> nested 0 cs
      \<longrightarrow> runCutPoints threadId cs depthEntries threadId = None)
   \<and> (depthEntries threadId = None \<and> balance cs = 0
      \<longrightarrow> (runCutPoints threadId cs depthEntries threadId = None \<longleftrightarrow> cs = [] \<or> last cs = Leave))
   \<and> (depthEntries threadId = Some 1
      \<longrightarrow> updateDepth depthEntries threadId Leave = (0, depthEntries(threadId := None)))
   \<and> (other \<noteq> threadId \<longrightarrow> runCutPoints threadId cs depthEntries other = depthEntries other)"
proof (intro conjI impI)
  assume "depthEntries threadId = None \<and> nested 0 cs"
  then show "runCutPoints threadId cs depthEntries threadId = None"
    using runCutPoints_nested [of 0 cs depthEntries threadId] by simp
next
  assume "depthEntries threadId = None \<and> balance cs = 0"
  then show "runCutPoints threadId cs depthEntries threadId = None \<longleftrightarrow> cs = [] \<or> last cs = Leave"
    using runCutPoints_balanced [of depthEntries threadId cs] by simp
next
  assume "depthEntries threadId = Some 1"
  then show "updateDepth depthEntries threadId Leave = (0, depthEntries(threadId := None))"
    by (simp add: updateDepth_def)
next
  assume "other \<noteq> threadId"
  then show "runCutPoints threadId cs depthEntries other = depthEntries other"
    by (rule runCutPoints_other)
qed

text \<open>The theorem on three nested calls of thread 7, beside an entry of thread 3.\<close>

theorem updateDepth_no_entry_when_balanced_witness:
  "nested 0 [Enter, Enter, Leave, Enter, Leave, Leave]
   \<and> runCutPoints 7 [Enter, Enter, Leave, Enter, Leave, Leave] [3 \<mapsto> 2] 7 = None
   \<and> runCutPoints 7 [Enter, Enter, Leave, Enter, Leave, Leave] [3 \<mapsto> 2] 3 = Some 2
   \<and> updateDepth [7 \<mapsto> 1] 7 Leave = (0, [7 \<mapsto> 1](7 := None))"
  using updateDepth_no_entry_when_balanced [of "[3 \<mapsto> 2]" 7 "[Enter, Enter, Leave, Enter, Leave, Leave]" 3]
    updateDepth_no_entry_when_balanced [of "[7 \<mapsto> 1]" 7 "[]" 3]
  by simp

section \<open>Properties: target plan: pattern parsing\<close>

lemma length_splitAcc: "length (splitAcc c cur s) = count_list s c + 1"
  by (induction s arbitrary: cur) simp_all

lemma splitAcc_free:
  "c \<notin> set cur \<Longrightarrow> f \<in> set (splitAcc c cur s) \<Longrightarrow> c \<notin> set f"
proof (induction s arbitrary: cur)
  case Nil
  then show ?case by simp
next
  case (Cons x xs)
  show ?case
  proof (cases "x = c")
    case True
    with Cons.prems(2) have "f = cur \<or> f \<in> set (splitAcc c [] xs)" by simp
    then show ?thesis using Cons.prems(1) Cons.IH [of "[]"] by auto
  next
    case False
    with Cons.prems have "c \<notin> set (cur @ [x])" "f \<in> set (splitAcc c (cur @ [x]) xs)"
      by simp_all
    then show ?thesis by (rule Cons.IH)
  qed
qed

lemma splitAcc_ne: "splitAcc c cur s \<noteq> []"
  by (induction s arbitrary: cur) simp_all

lemma joinWith_Cons: "fs \<noteq> [] \<Longrightarrow> joinWith c (f # fs) = f @ c # joinWith c fs"
  by (cases fs) simp_all

lemma joinWith_splitAcc: "joinWith c (splitAcc c cur s) = cur @ s"
  by (induction s arbitrary: cur) (simp_all add: joinWith_Cons splitAcc_ne)

lemma count_replaceFirst_same:
  "c \<noteq> d \<Longrightarrow> count_list (replaceFirst c d s) d = count_list s d + (if c \<in> set s then 1 else 0)"
  by (induction s) auto

lemma replaceFirst_once:
  "c \<noteq> d \<Longrightarrow> count_list s c \<le> 1 \<Longrightarrow> replaceFirst c d s = map (\<lambda>x. if x = c then d else x) s"
proof (induction s)
  case Nil
  then show ?case by simp
next
  case (Cons x xs)
  show ?case
  proof (cases "x = c")
    case True
    with Cons.prems have "count_list xs c = 0" by simp
    then have "c \<notin> set xs" by (simp add: count_list_0_iff)
    then have "map (\<lambda>x. if x = c then d else x) xs = xs" by (induction xs) auto
    with True show ?thesis by simp
  next
    case False
    with Cons show ?thesis by simp
  qed
qed

lemma count_le_one_mem: "count_list s c \<le> 1 \<Longrightarrow> (if c \<in> set s then 1 else 0) = count_list s c"
  by (induction s) (auto split: if_splits simp: count_list_0_iff)

subsection \<open>Claims about pattern parsing\<close>

text \<open>
  Claim C7, as stated, fails. The empty pattern has no separator and yields no fragment
  at all, by the guard \<^verbatim>\<open>if (!pattern) return []\<close>. And a pattern with two semicolons
  is split at the first one only, since \<^verbatim>\<open>replace(";", ",")\<close> replaces one occurrence:
  two separators yield two fragments.
\<close>

theorem parseMethodPattern_counterexample:
  "parseMethodPattern '''' = []
   \<and> parseMethodPattern ''-[A foo];-[B bar];-[C baz]'' = [''-[A foo]'', ''-[B bar];-[C baz]'']"
  by (simp add: parseMethodPattern_def splitOn_def)

text \<open>
  Claim C7, amended. For every non-empty pattern with at most one semicolon,
  \<^verbatim>\<open>parseMethodPattern\<close> splits at every \<^verbatim>\<open>;\<close> and every \<^verbatim>\<open>,\<close>: a pattern with
  \<open>k\<close> separator characters yields \<open>k + 1\<close> fragments, no fragment contains a
  separator, and the fragments joined with commas are the pattern with its semicolon
  turned into a comma. (The empty pattern yields no fragment, see above.)
\<close>

theorem parseMethodPattern_fragments:
  assumes "pattern \<noteq> []" and "count_list pattern CHR '';'' \<le> 1"
  shows "length (parseMethodPattern pattern)
           = count_list pattern CHR '';'' + count_list pattern CHR '','' + 1
    \<and> (\<forall>f \<in> set (parseMethodPattern pattern). CHR '';'' \<notin> set f \<and> CHR '','' \<notin> set f)
    \<and> joinWith CHR '','' (parseMethodPattern pattern)
         = map (\<lambda>x. if x = CHR '';'' then CHR '','' else x) pattern"
proof -
  let ?r = "replaceFirst CHR '';'' CHR '','' pattern"
  have p: "parseMethodPattern pattern = splitAcc CHR '','' [] ?r"
    using assms(1) by (simp add: parseMethodPattern_def splitOn_def)
  have r: "?r = map (\<lambda>x. if x = CHR '';'' then CHR '','' else x) pattern"
    using assms(2) by (simp add: replaceFirst_once)
  have len: "length (parseMethodPattern pattern)
           = count_list pattern CHR '';'' + count_list pattern CHR '','' + 1"
    using count_le_one_mem [OF assms(2)]
    by (simp add: p length_splitAcc count_replaceFirst_same)
  have semi: "CHR '';'' \<notin> set ?r" unfolding r by auto
  have free: "\<forall>f \<in> set (parseMethodPattern pattern). CHR '';'' \<notin> set f \<and> CHR '','' \<notin> set f"
  proof
    fix f assume f: "f \<in> set (parseMethodPattern pattern)"
    then have a: "CHR '','' \<notin> set f"
      unfolding p using splitAcc_free [of "CHR '',''" "[]" f ?r] by simp
    have "set f \<subseteq> set ?r"
    proof -
      have "joinWith CHR '','' (splitAcc CHR '','' [] ?r) = ?r" by (simp add: joinWith_splitAcc)
      moreover have "\<And>fs. f \<in> set fs \<Longrightarrow> set f \<subseteq> set (joinWith CHR '','' fs)"
      proof -
        fix fs show "f \<in> set fs \<Longrightarrow> set f \<subseteq> set (joinWith CHR '','' fs)"
          by (induction fs rule: joinWith.induct) auto
      qed
      ultimately show ?thesis using f p by metis
    qed
    with semi have "CHR '';'' \<notin> set f" by blast
    with a show "CHR '';'' \<notin> set f \<and> CHR '','' \<notin> set f" by simp
  qed
  have "joinWith CHR '','' (parseMethodPattern pattern) = ?r"
    by (simp add: p joinWith_splitAcc)
  with r len free show ?thesis by simp
qed

text \<open>
  The theorem on a pattern with one semicolon and one comma.
\<close>

theorem parseMethodPattern_fragments_witness:
  "parseMethodPattern ''-[A foo];-[B bar],-[C baz]'' = [''-[A foo]'', ''-[B bar]'', ''-[C baz]'']
   \<and> length (parseMethodPattern ''-[A foo];-[B bar],-[C baz]'') = 3"
  using parseMethodPattern_fragments [of "''-[A foo];-[B bar],-[C baz]''"]
  by (simp add: parseMethodPattern_def splitOn_def)

section \<open>Properties: target plan: native targets\<close>

lemma buildRegList_valid:
  "buildRegList compile pts = buildRegList compile (filter (\<lambda>pt. compile pt \<noteq> None) pts)"
  by (induction pts) (auto split: option.splits)

lemma buildRegList_sources:
  "map source (buildRegList compile pts) = map (\<lambda>pt. the (compile pt)) (filter (\<lambda>pt. compile pt \<noteq> None) pts)"
  by (induction pts) (auto split: option.splits)

lemma buildRegList_invalid:
  "list_all (\<lambda>pt. compile pt = None) pts \<Longrightarrow> buildRegList compile pts = []"
  by (induction pts) simp_all

subsection \<open>Claims about the object-method filter\<close>

text \<open>
  Claim C4 (idempotence of \<^verbatim>\<open>filterObjCMethod\<close>), evaluated on the code. The plan holds
  three Objective-C targets, in insertion order \<^verbatim>\<open>-[AB foo]\<close>, \<^verbatim>\<open>-[A foo]\<close>,
  \<^verbatim>\<open>-[A foo:]\<close>, and the pattern is \<^verbatim>\<open>foo\<close>, which matches all three names. The
  expression is created with the \<^verbatim>\<open>g\<close> flag, so \<^verbatim>\<open>test\<close> resumes at the
  \<^verbatim>\<open>lastIndex\<close> the previous entry left: the first filter keeps the first and third
  targets (and drops the second, although its name matches), and a second filter with the
  same pattern drops the third as well. Filtering twice is not filtering once.
\<close>

theorem filterObjCMethod_not_idempotent:
  "filterObjCMethod plainCompile plainExec ''foo''
     [(''0x1'', KindObjC, ''AB'', Signed ''foo'' ''-[AB foo]'' \<lparr>argInfo = [], retType = False, sel = Some ''foo''\<rparr>),
      (''0x2'', KindObjC, ''A'', Signed ''foo'' ''-[A foo]'' \<lparr>argInfo = [], retType = False, sel = Some ''foo''\<rparr>),
      (''0x3'', KindObjC, ''A'', Signed ''foo:'' ''-[A foo:]'' \<lparr>argInfo = [(0, True)], retType = False, sel = Some ''foo:''\<rparr>)]
   = [(''0x1'', KindObjC, ''AB'', Signed ''foo'' ''-[AB foo]'' \<lparr>argInfo = [], retType = False, sel = Some ''foo''\<rparr>),
      (''0x3'', KindObjC, ''A'', Signed ''foo:'' ''-[A foo:]'' \<lparr>argInfo = [(0, True)], retType = False, sel = Some ''foo:''\<rparr>)]
   \<and> filterObjCMethod plainCompile plainExec ''foo''
     (filterObjCMethod plainCompile plainExec ''foo''
       [(''0x1'', KindObjC, ''AB'', Signed ''foo'' ''-[AB foo]'' \<lparr>argInfo = [], retType = False, sel = Some ''foo''\<rparr>),
        (''0x2'', KindObjC, ''A'', Signed ''foo'' ''-[A foo]'' \<lparr>argInfo = [], retType = False, sel = Some ''foo''\<rparr>),
        (''0x3'', KindObjC, ''A'', Signed ''foo:'' ''-[A foo:]'' \<lparr>argInfo = [(0, True)], retType = False, sel = Some ''foo:''\<rparr>)])
   = [(''0x1'', KindObjC, ''AB'', Signed ''foo'' ''-[AB foo]'' \<lparr>argInfo = [], retType = False, sel = Some ''foo''\<rparr>)]"
  by (simp add: filterObjCMethod_def parseMethodPattern_def splitOn_def plainCompile_def
      isAlnum_def plainExec_def test_def)

text \<open>
  Claim C8. The expressions of a filter rule are exactly the compiled valid fragments, in
  order: a fragment the \<^verbatim>\<open>RegExp\<close> constructor rejects is skipped, and the function has
  no way to report it. When every fragment of the rule is invalid, the rule leaves the
  native target map unchanged.
\<close>

theorem filterObjCMethod_invalid_fragments:
  "map source (buildRegList compile (parseMethodPattern pattern))
     = map (\<lambda>pt. the (compile pt)) (filter (\<lambda>pt. compile pt \<noteq> None) (parseMethodPattern pattern))
   \<and> (list_all (\<lambda>pt. compile pt = None) (parseMethodPattern pattern)
        \<longrightarrow> filterObjCMethod compile exec pattern native = native)"
  by (simp add: buildRegList_sources buildRegList_invalid filterObjCMethod_def)

text \<open>
  The theorem on the pattern \<^verbatim>\<open>(,[\<close>, whose two fragments are both rejected.
\<close>

theorem filterObjCMethod_invalid_fragments_witness:
  "parseMethodPattern ''(,['' = [''('', ''['']
   \<and> filterObjCMethod plainCompile plainExec ''(,[''
        [(''0x1'', KindObjC, ''A'', Signed ''foo'' ''-[A foo]'' \<lparr>argInfo = [], retType = False, sel = Some ''foo''\<rparr>)]
      = [(''0x1'', KindObjC, ''A'', Signed ''foo'' ''-[A foo]'' \<lparr>argInfo = [], retType = False, sel = Some ''foo''\<rparr>)]"
  using filterObjCMethod_invalid_fragments [of plainCompile "''(,[''" plainExec
      "[(''0x1'', KindObjC, ''A'', Signed ''foo'' ''-[A foo]'' \<lparr>argInfo = [], retType = False, sel = Some ''foo''\<rparr>)]"]
  by (simp add: parseMethodPattern_def splitOn_def plainCompile_def isAlnum_def)

subsection \<open>Claims about property exclusion\<close>

text \<open>
  Claim C6 (property exclusion also removes the lifecycle methods of the class),
  evaluated on the code. The class \<^verbatim>\<open>MyClass\<close> can be instantiated and has one instance
  variable \<^verbatim>\<open>_name\<close>; the plan holds its getter, its setter and its \<^verbatim>\<open>dealloc\<close>,
  \<^verbatim>\<open>.cxx_destruct\<close> and \<^verbatim>\<open>alloc\<close> methods. The rule removes the getter and the
  setter and keeps the three lifecycle targets: the code looks the whole display name
  (\<^verbatim>\<open>-[MyClass dealloc]\<close>) up in a set of bare selectors (\<^verbatim>\<open>dealloc\<close>).
\<close>

theorem excludeObjCProperty_keeps_lifecycle:
  "excludeObjCProperty
     (\<lambda>className. if className = ''MyClass''
        then Some \<lparr>hasAlloc = True, ivarKeys = Some [''_name'']\<rparr> else None)
     ''MyClass''
     [(''0x1'', KindObjC, ''MyClass'', Signed ''name'' ''-[MyClass name]'' \<lparr>argInfo = [], retType = True, sel = Some ''name''\<rparr>),
      (''0x2'', KindObjC, ''MyClass'', Signed ''setName:'' ''-[MyClass setName:]'' \<lparr>argInfo = [(0, True)], retType = False, sel = Some ''setName:''\<rparr>),
      (''0x3'', KindObjC, ''MyClass'', Signed ''dealloc'' ''-[MyClass dealloc]'' \<lparr>argInfo = [], retType = False, sel = Some ''dealloc''\<rparr>),
      (''0x4'', KindObjC, ''MyClass'', Signed ''.cxx_destruct'' ''-[MyClass .cxx_destruct]'' \<lparr>argInfo = [], retType = False, sel = Some ''.cxx_destruct''\<rparr>),
      (''0x5'', KindObjC, ''MyClass'', Signed ''alloc'' ''+[MyClass alloc]'' \<lparr>argInfo = [], retType = True, sel = Some ''alloc''\<rparr>)]
   = [(''0x3'', KindObjC, ''MyClass'', Signed ''dealloc'' ''-[MyClass dealloc]'' \<lparr>argInfo = [], retType = False, sel = Some ''dealloc''\<rparr>),
      (''0x4'', KindObjC, ''MyClass'', Signed ''.cxx_destruct'' ''-[MyClass .cxx_destruct]'' \<lparr>argInfo = [], retType = False, sel = Some ''.cxx_destruct''\<rparr>),
      (''0x5'', KindObjC, ''MyClass'', Signed ''alloc'' ''+[MyClass alloc]'' \<lparr>argInfo = [], retType = True, sel = Some ''alloc''\<rparr>)]"
  by code_simp

section \<open>Properties: target plan: managed targets\<close>

lemma map_of_update_same: "map_of (AList.update k v al) k = Some v"
  by (simp add: update_conv')

lemma plannedSignature_oneMethod:
  "plannedSignature (includeJavaMethod (oneMethod ldr cn m) gs) ldr cn (javaBareMethodNameFromMethodName m)
   = (case plannedSignature gs ldr cn (javaBareMethodNameFromMethodName m) of
        None \<Rightarrow> Some m
      | Some e \<Rightarrow> Some (if length m > length e then m else e))"
proof (induction gs)
  case Nil
  show ?case
    by (simp add: includeJavaMethod_def oneMethod_def plannedSignature_def sameLoader_def
        javaTargetGroupFromMatchGroup_def javaTargetClassFromMatchClass_def newMap_def)
next
  case (Cons g gs)
  show ?case
  proof (cases "sameLoader (loader g) ldr")
    case True
    show ?thesis
    proof (cases "map_of (classes g) cn")
      case None
      with True show ?thesis
        by (simp add: includeJavaMethod_def oneMethod_def plannedSignature_def mergeClass_def
            map_of_update_same javaTargetClassFromMatchClass_def newMap_def)
    next
      case (Some k)
      with True show ?thesis
        by (simp add: includeJavaMethod_def oneMethod_def plannedSignature_def mergeClass_def
            mergeMethod_def map_of_update_same Let_def split: option.splits)
    qed
  next
    case False
    with Cons show ?thesis
      by (simp add: includeJavaMethod_def oneMethod_def plannedSignature_def)
  qed
qed

subsection \<open>Claims about managed targets\<close>

text \<open>
  Claim C5. Take two enumeration results for the same loader and class, each with one
  method name, the two names having the same bare name and different lengths (such as
  \<^verbatim>\<open>foo()V\<close> and \<^verbatim>\<open>foo(I)V\<close>), and a plan that holds no signature yet for that bare
  name: the loader's group may be missing, or the class, or only the method, so that the
  first merge creates what is missing. Merging the two results in either order leaves the
  longer name as the signature planned for the bare name.
\<close>

theorem includeJavaMethod_longer_signature:
  assumes "javaBareMethodNameFromMethodName m1 = bareName"
    and "javaBareMethodNameFromMethodName m2 = bareName"
    and "length m1 < length m2"
    and "plannedSignature plan ldr className bareName = None"
  shows "plannedSignature
           (includeJavaMethod (oneMethod ldr className m2)
             (includeJavaMethod (oneMethod ldr className m1) plan)) ldr className bareName = Some m2
    \<and> plannedSignature
           (includeJavaMethod (oneMethod ldr className m1)
             (includeJavaMethod (oneMethod ldr className m2) plan)) ldr className bareName = Some m2"
proof -
  have a1: "plannedSignature (includeJavaMethod (oneMethod ldr className m1) plan) ldr className bareName
      = Some m1"
    using plannedSignature_oneMethod [of ldr className m1 plan] assms(1,4) by simp
  have a2: "plannedSignature (includeJavaMethod (oneMethod ldr className m2) plan) ldr className bareName
      = Some m2"
    using plannedSignature_oneMethod [of ldr className m2 plan] assms(2,4) by simp
  have b1: "plannedSignature (includeJavaMethod (oneMethod ldr className m2)
             (includeJavaMethod (oneMethod ldr className m1) plan)) ldr className bareName = Some m2"
    using plannedSignature_oneMethod [of ldr className m2
        "includeJavaMethod (oneMethod ldr className m1) plan"] assms(2,3) a1 by simp
  have b2: "plannedSignature (includeJavaMethod (oneMethod ldr className m1)
             (includeJavaMethod (oneMethod ldr className m2) plan)) ldr className bareName = Some m2"
    using plannedSignature_oneMethod [of ldr className m1
        "includeJavaMethod (oneMethod ldr className m2) plan"] assms(1,3) a2 by simp
  from b1 b2 show ?thesis by simp
qed

text \<open>
  The theorem on \<^verbatim>\<open>foo()V\<close> and \<^verbatim>\<open>foo(I)V\<close> of class \<^verbatim>\<open>com.example.Foo\<close>, merged into
  an empty plan, where the first merge creates the group and the class.
\<close>

theorem includeJavaMethod_longer_signature_witness:
  "plannedSignature
     (includeJavaMethod (oneMethod (Some 1) ''com.example.Foo'' ''foo(I)V'')
       (includeJavaMethod (oneMethod (Some 1) ''com.example.Foo'' ''foo()V'') [])) (Some 1) ''com.example.Foo'' ''foo''
     = Some ''foo(I)V''
   \<and> plannedSignature
     (includeJavaMethod (oneMethod (Some 1) ''com.example.Foo'' ''foo()V'')
       (includeJavaMethod (oneMethod (Some 1) ''com.example.Foo'' ''foo(I)V'') [])) (Some 1) ''com.example.Foo'' ''foo''
     = Some ''foo(I)V''"
  using includeJavaMethod_longer_signature [of "''foo()V''" "''foo''" "''foo(I)V''" "[]" "Some 1" "''com.example.Foo''"]
  by (simp add: javaBareMethodNameFromMethodName_def plannedSignature_def)

section \<open>Properties: attachment and session start\<close>

lemma getHandlers_returns:
  assumes "answers host"
  shows "\<exists>sent response. getHandlers host request = (sent, Some response)"
proof -
  have "\<exists>reqs. getHandlers_loop host (msg_type request) (flavor request) (baseId request)
            (scopes request) [] [] =
           ([] @ reqs, Some \<lparr>scripts = [] @ concat (map (\<lambda>r. scripts (the (host r))) reqs)\<rparr>)
     \<and> length reqs = pagesOf (length (flatMembers (scopes request)))
     \<and> concat (map (\<lambda>r. flatMembers (scopes r)) reqs) = flatMembers (scopes request)
     \<and> (\<forall>j<length reqs.
           flatMembers (scopes (reqs ! j)) = take 1000 (drop (1000 * j) (flatMembers (scopes request)))
           \<and> baseId (reqs ! j) = baseId request + 1000 * j \<and> flavor (reqs ! j) = flavor request
           \<and> msg_type (reqs ! j) = msg_type request)"
    by (rule getHandlers_loop_invariant) (rule answers_Some [OF assms])
  then obtain reqs where "getHandlers_loop host (msg_type request) (flavor request) (baseId request)
            (scopes request) [] [] =
           ([] @ reqs, Some \<lparr>scripts = [] @ concat (map (\<lambda>r. scripts (the (host r))) reqs)\<rparr>)"
    by (elim exE conjE)
  then show ?thesis by (simp add: getHandlers_def)
qed

lemma update_items:
  "length (filter P (concat (map snd (AList.update k v g))))
     + length (filter P (case map_of g k of None \<Rightarrow> [] | Some old \<Rightarrow> old))
   = length (filter P (concat (map snd g))) + length (filter P v)"
  by (induction g) auto

lemma countItems_pushItem:
  "countItems P (pushItem scope item g) = countItems P g + (if P item then 1 else 0)"
proof (cases "map_of g scope")
  case None
  then show ?thesis
    using update_items [of P scope "[item]" g]
    by (simp add: countItems_def pushItem_def)
next
  case (Some grp)
  then show ?thesis
    using update_items [of P scope "grp @ [item]" g]
    by (simp add: countItems_def pushItem_def)
qed

lemma countItems_groupTargets:
  "groupTargets targets (cg0, og0, sg0) = (cg, og, sg) \<Longrightarrow>
   countItems P cg + countItems P og + countItems P sg
     = countItems P cg0 + countItems P og0 + countItems P sg0
       + length (filter (\<lambda>(ident, kind, scope, name). P (name, ident)) targets)"
proof (induction targets arbitrary: cg0 og0 sg0)
  case Nil
  then show ?case by simp
next
  case (Cons t targets)
  obtain ident kind scope name where t: "t = (ident, kind, scope, name)"
    by (metis prod_cases4)
  show ?case
  proof (cases kind)
    case KindC
    with Cons.prems t have "groupTargets targets (pushItem scope (name, ident) cg0, og0, sg0) = (cg, og, sg)"
      by simp
    from Cons.IH [OF this] t show ?thesis by (simp add: countItems_pushItem)
  next
    case KindObjC
    with Cons.prems t have "groupTargets targets (cg0, pushItem scope (name, ident) og0, sg0) = (cg, og, sg)"
      by simp
    from Cons.IH [OF this] t show ?thesis by (simp add: countItems_pushItem)
  next
    case KindSwift
    with Cons.prems t have "groupTargets targets (cg0, og0, pushItem scope (name, ident) sg0) = (cg, og, sg)"
      by simp
    from Cons.IH [OF this] t show ?thesis by (simp add: countItems_pushItem)
  qed
qed

lemma update_fresh: "k \<notin> fst ` set al \<Longrightarrow> AList.update k v al = al @ [(k, v)]"
  by (induction al) auto

lemma idsBelow_fresh: "idsBelow n a \<Longrightarrow> n \<notin> fst ` set (handlers a)"
  by (auto simp: idsBelow_def list_all_iff)

lemma attachItem_counts:
  assumes "idsBelow (base + offset) a"
  shows "length (handlers (attachItem evalError attachError base scs offset item a))
           = Suc (length (handlers a))"
    and "idsBelow (base + offset + 1) (attachItem evalError attachError base scs offset item a)"
    and "length (attached (attachItem evalError attachError base scs offset item a))
           = length (attached a) + (if attachable attachError item then 1 else 0)"
    and "nextId (attachItem evalError attachError base scs offset item a) = nextId a"
proof -
  obtain name address where item: "item = (name, address)" by (cases item)
  obtain handler warnings where
    ph: "parseHandler evalError (displayName name) (scriptAt scs offset) = (handler, warnings)"
    by (cases "parseHandler evalError (displayName name) (scriptAt scs offset)")
  have fresh: "base + offset \<notin> fst ` set (handlers a)"
    using assms by (rule idsBelow_fresh)
  have h: "handlers (attachItem evalError attachError base scs offset item a)
      = AList.update (base + offset) handler (handlers a)"
    using item ph by (simp add: attachItem_def Let_def split: option.splits)
  show "length (handlers (attachItem evalError attachError base scs offset item a))
      = Suc (length (handlers a))"
    using fresh by (simp add: h update_fresh)
  have "list_all (\<lambda>(ident, handler). ident < base + offset + 1) (handlers a)"
    using assms unfolding idsBelow_def list_all_iff by fastforce
  then show "idsBelow (base + offset + 1) (attachItem evalError attachError base scs offset item a)"
    using fresh unfolding idsBelow_def h by (simp add: update_fresh)
  show "length (attached (attachItem evalError attachError base scs offset item a))
           = length (attached a) + (if attachable attachError item then 1 else 0)"
    using item ph by (simp add: attachItem_def attachable_def Let_def split: option.splits)
  show "nextId (attachItem evalError attachError base scs offset item a) = nextId a"
    using item ph by (simp add: attachItem_def Let_def split: option.splits)
qed

lemma attachItems_counts:
  "idsBelow (base + offset) a \<Longrightarrow>
   length (handlers (attachItems evalError attachError base scs offset items a))
     = length (handlers a) + length items
   \<and> idsBelow (base + offset + length items) (attachItems evalError attachError base scs offset items a)
   \<and> length (attached (attachItems evalError attachError base scs offset items a))
     = length (attached a) + length (filter (attachable attachError) items)
   \<and> nextId (attachItems evalError attachError base scs offset items a) = nextId a"
proof (induction items arbitrary: offset a)
  case Nil
  then show ?case by simp
next
  case (Cons item items)
  let ?a = "attachItem evalError attachError base scs offset item a"
  note c = attachItem_counts [OF Cons.prems, of evalError attachError scs item]
  from c(2) have "idsBelow (base + (offset + 1)) ?a" by (simp add: add.assoc)
  from Cons.IH [OF this] c(1,3,4) show ?case by (simp add: add.assoc)
qed

lemma traceNativeEntries_counts:
  assumes host: "answers host" and ids: "idsBelow (nextId a) a"
  shows "\<exists>a'. traceNativeEntries host evalError attachError flv groups a = Some a'
     \<and> length (handlers a') = length (handlers a) + countItems (\<lambda>item. True) groups
     \<and> length (attached a') = length (attached a) + countItems (attachable attachError) groups
     \<and> idsBelow (nextId a') a'"
proof (cases "groups = []")
  case True
  then show ?thesis using ids by (simp add: traceNativeEntries_def countItems_def)
next
  case False
  let ?items = "concat (map snd groups)"
  let ?request = "\<lparr>msg_type = ''handlers:get'', flavor = flv, baseId = nextId a,
      scopes = map (\<lambda>(name, items). \<lparr>scope_name = name, members = map fst items\<rparr>) groups\<rparr>"
  obtain sent response where g: "getHandlers host ?request = (sent, Some response)"
    using getHandlers_returns [OF host] by blast
  let ?a2 = "a\<lparr>nextId := nextId a + length ?items, outbox := outbox a @ map HandlersGet sent\<rparr>"
  let ?a' = "attachItems evalError attachError (nextId a) (scripts response) 0 ?items ?a2"
  have run: "traceNativeEntries host evalError attachError flv groups a = Some ?a'"
    using False g by (simp add: traceNativeEntries_def Let_def)
  have "idsBelow (nextId a + 0) ?a2" using ids by (simp add: idsBelow_def)
  from attachItems_counts [OF this, of evalError attachError "scripts response" ?items]
  have c: "length (handlers ?a') = length (handlers ?a2) + length ?items"
    "idsBelow (nextId a + 0 + length ?items) ?a'"
    "length (attached ?a') = length (attached ?a2) + length (filter (attachable attachError) ?items)"
    "nextId ?a' = nextId ?a2"
    by simp_all
  have "length (handlers ?a') = length (handlers a) + countItems (\<lambda>item. True) groups"
    using c(1) by (simp add: countItems_def)
  moreover have "length (attached ?a') = length (attached a) + countItems (attachable attachError) groups"
    using c(3) by (simp add: countItems_def)
  moreover have "idsBelow (nextId ?a') ?a'"
    using c(2,4) by simp
  ultimately show ?thesis using run by blast
qed

lemma traceNativeTargets_counts:
  assumes host: "answers host" and ids: "idsBelow (nextId a) a"
  shows "\<exists>a'. traceNativeTargets host evalError attachError targets a = Some a'
     \<and> length (handlers a') = length (handlers a) + length targets
     \<and> length (attached a') = length (attached a)
          + length (filter (\<lambda>(ident, kind, scope, name). attachError ident = None) targets)"
proof -
  obtain cg og sg where grp: "groupTargets targets ([], [], []) = (cg, og, sg)"
    by (metis prod_cases3)
  from countItems_groupTargets [OF grp, of "\<lambda>item. True"]
  have total: "countItems (\<lambda>item. True) cg + countItems (\<lambda>item. True) og
      + countItems (\<lambda>item. True) sg = length targets"
    by (simp add: countItems_def case_prod_unfold)
  from countItems_groupTargets [OF grp, of "attachable attachError"]
  have ok: "countItems (attachable attachError) cg + countItems (attachable attachError) og
      + countItems (attachable attachError) sg
      = length (filter (\<lambda>(ident, kind, scope, name). attachError ident = None) targets)"
    by (simp add: countItems_def attachable_def)
  from traceNativeEntries_counts [OF host ids, of evalError attachError FlavorC cg]
  obtain a1 where a1: "traceNativeEntries host evalError attachError FlavorC cg a = Some a1"
    "length (handlers a1) = length (handlers a) + countItems (\<lambda>item. True) cg"
    "length (attached a1) = length (attached a) + countItems (attachable attachError) cg"
    "idsBelow (nextId a1) a1"
    by blast
  from traceNativeEntries_counts [OF host a1(4), of evalError attachError FlavorObjC og]
  obtain a2 where a2: "traceNativeEntries host evalError attachError FlavorObjC og a1 = Some a2"
    "length (handlers a2) = length (handlers a1) + countItems (\<lambda>item. True) og"
    "length (attached a2) = length (attached a1) + countItems (attachable attachError) og"
    "idsBelow (nextId a2) a2"
    by blast
  from traceNativeEntries_counts [OF host a2(4), of evalError attachError FlavorSwift sg]
  obtain a3 where a3: "traceNativeEntries host evalError attachError FlavorSwift sg a2 = Some a3"
    "length (handlers a3) = length (handlers a2) + countItems (\<lambda>item. True) sg"
    "length (attached a3) = length (attached a2) + countItems (attachable attachError) sg"
    by blast
  have "traceNativeTargets host evalError attachError targets a = Some a3"
    using grp a1(1) a2(1) a3(1) by (simp add: traceNativeTargets_def)
  moreover have "length (handlers a3) = length (handlers a) + length targets"
    using a1(2) a2(2) a3(2) total by simp
  moreover have "length (attached a3) = length (attached a)
          + length (filter (\<lambda>(ident, kind, scope, name). attachError ident = None) targets)"
    using a1(3) a2(3) a3(3) ok by simp
  ultimately show ?thesis by blast
qed

subsection \<open>Claims about session start\<close>

text \<open>
  Claim C9, as stated, fails. The plan holds one target, \<^verbatim>\<open>bar\<close> of \<^verbatim>\<open>libfoo\<close>, and
  \<^verbatim>\<open>Interceptor.attach\<close> throws at its address. The agent sends the warning
  \<^verbatim>\<open>Skipping "bar": ...\<close> and no probe is attached, yet \<^verbatim>\<open>agent:started\<close> carries
  the count 1: the handler was stored under its id before the attachment was tried, and
  the count is the size of the handler table.
\<close>

theorem start_count_counterexample:
  "start (\<lambda>r. Some \<lparr>scripts = map (\<lambda>m. ''{}'') (flatMembers (scopes r))\<rparr>)
      (\<lambda>script. None)
      (\<lambda>address. if address = ''0x1000'' then Some ''unable to intercept function'' else None)
      [(''0x1000'', KindC, ''libfoo'', Bare ''bar'')] newAgent
   = Some \<lparr>handlers = [(1, FromScript ''{}'')], nextId = 2, attached = [],
        outbox = [HandlersGet \<lparr>msg_type = ''handlers:get'', flavor = FlavorC, baseId = 1,
                     scopes = [\<lparr>scope_name = ''libfoo'', members = [Bare ''bar'']\<rparr>]\<rparr>,
                  AgentWarning ''Skipping \"bar\": unable to intercept function'',
                  AgentInitialized, AgentStarted 1]\<rparr>"
  by (simp add: start_def traceNativeTargets_def traceNativeEntries_def pushItem_def newAgent_def
      getHandlers_def getHandlers_loop.simps onePass_def attachItem_def parseHandler_def
      scriptAt_def Let_def)

text \<open>
  Claim C9, amended. For a specification with no managed rule, a new agent and a host
  that answers every request, startup completes and the last message sent is
  \<^verbatim>\<open>agent:started\<close>, whose count is the size of the handler table. The table has one
  entry for every native target of the plan, whether or not its probe could be attached,
  while the probes attached are those of the targets where \<^verbatim>\<open>Interceptor.attach\<close> did
  not throw.
\<close>

theorem start_count:
  assumes "answers host"
  shows "\<exists>a'. start host evalError attachError native newAgent = Some a'
     \<and> last (outbox a') = AgentStarted (length (handlers a'))
     \<and> length (handlers a') = length native
     \<and> length (attached a')
          = length (filter (\<lambda>(ident, kind, scope, name). attachError ident = None) native)"
proof -
  have ids: "idsBelow (nextId newAgent) newAgent" by (simp add: idsBelow_def newAgent_def)
  from traceNativeTargets_counts [OF assms ids, of evalError attachError native]
  obtain a1 where a1: "traceNativeTargets host evalError attachError native newAgent = Some a1"
    "length (handlers a1) = length (handlers newAgent) + length native"
    "length (attached a1) = length (attached newAgent)
          + length (filter (\<lambda>(ident, kind, scope, name). attachError ident = None) native)"
    by blast
  let ?a' = "a1\<lparr>outbox := outbox a1 @ [AgentInitialized, AgentStarted (length (handlers a1))]\<rparr>"
  have "start host evalError attachError native newAgent = Some ?a'"
    using a1(1) by (simp add: start_def)
  moreover have "last (outbox ?a') = AgentStarted (length (handlers ?a'))" by simp
  moreover have "length (handlers ?a') = length native"
    using a1(2) by (simp add: newAgent_def)
  moreover have "length (attached ?a')
          = length (filter (\<lambda>(ident, kind, scope, name). attachError ident = None) native)"
    using a1(3) by (simp add: newAgent_def)
  ultimately show ?thesis by blast
qed

text \<open>
  The theorem on two targets, the first of which cannot be attached: the count is 2
  and one probe is attached.
\<close>

theorem start_count_witness:
  "\<exists>a'. start (\<lambda>r. Some \<lparr>scripts = map (\<lambda>m. ''{}'') (flatMembers (scopes r))\<rparr>)
      (\<lambda>script. None)
      (\<lambda>address. if address = ''0x1000'' then Some ''unable to intercept function'' else None)
      [(''0x1000'', KindC, ''libfoo'', Bare ''bar''), (''0x2000'', KindC, ''libfoo'', Bare ''baz'')]
      newAgent = Some a'
     \<and> last (outbox a') = AgentStarted 2
     \<and> length (handlers a') = 2
     \<and> length (attached a') = 1"
proof -
  have a: "answers (\<lambda>r. Some \<lparr>scripts = map (\<lambda>m. ''{}'') (flatMembers (scopes r))\<rparr>)"
    by (simp add: answers_def)
  from start_count [OF a, of "\<lambda>script. None"
      "\<lambda>address. if address = ''0x1000'' then Some ''unable to intercept function'' else None"
      "[(''0x1000'', KindC, ''libfoo'', Bare ''bar''), (''0x2000'', KindC, ''libfoo'', Bare ''baz'')]"]
  show ?thesis by auto
qed

end
